theory Spec2Isabelle
  imports Complex_Main
begin

section \<open>Multi-armed bandit simulation: the embedding of bandit\_simulations.py\<close>

text \<open>
  The script compares six arm-selection policies on pre-generated Bernoulli rewards.
  Its arrays hold float64 values. The belief state holds only small whole numbers
  (the prior 1.0 plus one per pull), which float64 represents exactly; the model uses
  real numbers for every float, so a quotient, a logarithm or a square root is the exact
  real one and not its rounding.

  NumPy does not raise on a floating-point division by zero, on the logarithm of a
  non-positive number or on the square root of a negative one: it emits a RuntimeWarning
  and yields inf or nan. These values are not reals, so the model makes each of them the
  outcome \<open>FloatingPointError\<close>. \<open>ValueError\<close> is what NumPy raises on the argmax or
  argmin of an empty array, on a reduction of a zero-size array and on
  \<open>randint(low, high)\<close> with \<open>high \<le> low\<close>; \<open>IndexError\<close> is an index out of bounds.
\<close>

datatype error = ValueError | IndexError | FloatingPointError

fun bind_err :: "error + 'a \<Rightarrow> ('a \<Rightarrow> error + 'b) \<Rightarrow> error + 'b" where
  "bind_err (Inl e) f = Inl e"
| "bind_err (Inr x) f = f x"

subsection \<open>The process-wide random source\<close>

text \<open>
  Every policy draws from NumPy's global generator. The model makes the generator an
  explicit state: \<open>calls\<close> counts the calls made so far, and three functions give the
  value the call number \<open>c\<close> returns, according to the kind of call:
  \<open>rand_out c j\<close> is element \<open>j\<close> (in row-major order) of a \<open>np.random.rand\<close> call,
  \<open>randint_out c n\<close> the offset from \<open>low\<close> of a \<open>np.random.randint(low, low + n)\<close>
  call, and \<open>rbeta_out c j a b\<close> element \<open>j\<close> of a \<open>pm.rbeta\<close> call whose element
  \<open>j\<close> has the parameters \<open>a\<close> and \<open>b\<close>. Every call advances \<open>calls\<close> by one.
\<close>

record rng =
  rand_out :: "nat \<Rightarrow> nat \<Rightarrow> real"
  randint_out :: "nat \<Rightarrow> nat \<Rightarrow> nat"
  rbeta_out :: "nat \<Rightarrow> nat \<Rightarrow> real \<Rightarrow> real \<Rightarrow> real"
  calls :: nat

definition advance :: "rng \<Rightarrow> rng" where
  "advance g = g\<lparr>calls := Suc (calls g)\<rparr>"

text \<open>\<open>np.random.rand()\<close>: one uniform draw.\<close>

definition np_random_rand :: "rng \<Rightarrow> real \<times> rng" where
  "np_random_rand g = (rand_out g (calls g) 0, advance g)"

text \<open>\<open>np.random.rand(n)\<close>: a vector of \<open>n\<close> uniform draws.\<close>

definition np_random_rand1 :: "nat \<Rightarrow> rng \<Rightarrow> real list \<times> rng" where
  "np_random_rand1 n g = (map (rand_out g (calls g)) [0..<n], advance g)"

text \<open>\<open>np.random.rand(m, n)\<close>: an \<open>m\<close> by \<open>n\<close> matrix of uniform draws.\<close>

definition np_random_rand2 :: "nat \<Rightarrow> nat \<Rightarrow> rng \<Rightarrow> real list list \<times> rng" where
  "np_random_rand2 m n g =
     (map (\<lambda>i. map (\<lambda>j. rand_out g (calls g) (i * n + j)) [0..<n]) [0..<m], advance g)"

text \<open>\<open>np.random.randint(low, high)\<close>: an integer of the half-open range.\<close>

definition np_random_randint :: "nat \<Rightarrow> nat \<Rightarrow> rng \<Rightarrow> error + nat \<times> rng" where
  "np_random_randint low high g =
     (if high \<le> low then Inl ValueError
      else Inr (low + randint_out g (calls g) (high - low), advance g))"

text \<open>
  \<open>pm.rbeta(alpha, beta)\<close> on two vectors: one Beta sample for each pair of
  parameters. The sampler is a library outside the repository; the model takes its
  values from the random source.
\<close>

definition pm_rbeta :: "real list \<Rightarrow> real list \<Rightarrow> rng \<Rightarrow> real list \<times> rng" where
  "pm_rbeta alpha beta g =
     (map (\<lambda>(j, a, b). rbeta_out g (calls g) j a b)
          (zip [0..<length alpha] (zip alpha beta)),
      advance g)"

text \<open>
  What the callers rely on: a uniform draw lies in \<open>[0, 1)\<close> and an integer draw of a
  non-empty range lies in that range.
\<close>

definition rng_ok :: "rng \<Rightarrow> bool" where
  "rng_ok g \<longleftrightarrow>
     (\<forall>c j. 0 \<le> rand_out g c j \<and> rand_out g c j < 1) \<and>
     (\<forall>c n. 0 < n \<longrightarrow> randint_out g c n < n)"

subsection \<open>NumPy operations on vectors\<close>

text \<open>
  \<open>np.argmax\<close> and \<open>np.argmin\<close> scan the array from the left and keep the first index
  of the extreme value: \<open>arg_scan better xs i bv bi\<close> continues a scan at index \<open>i\<close>
  whose best value so far is \<open>bv\<close>, found at index \<open>bi\<close>.
\<close>

fun arg_scan :: "(real \<Rightarrow> real \<Rightarrow> bool) \<Rightarrow> real list \<Rightarrow> nat \<Rightarrow> real \<Rightarrow> nat \<Rightarrow> nat" where
  "arg_scan better [] i bv bi = bi"
| "arg_scan better (x # xs) i bv bi =
     (if better x bv then arg_scan better xs (Suc i) x i
      else arg_scan better xs (Suc i) bv bi)"

definition np_argmax :: "real list \<Rightarrow> error + nat" where
  "np_argmax xs = (case xs of [] \<Rightarrow> Inl ValueError | x # rest \<Rightarrow> Inr (arg_scan (\<lambda>a b. b < a) rest 1 x 0))"

definition np_argmin :: "real list \<Rightarrow> error + nat" where
  "np_argmin xs = (case xs of [] \<Rightarrow> Inl ValueError | x # rest \<Rightarrow> Inr (arg_scan (\<lambda>a b. a < b) rest 1 x 0))"

text \<open>Element-wise division of two vectors of one length.\<close>

definition np_divide :: "real list \<Rightarrow> real list \<Rightarrow> error + real list" where
  "np_divide xs ys =
     (if list_ex (\<lambda>y. y = 0) ys then Inl FloatingPointError
      else Inr (map (\<lambda>(x, y). x / y) (zip xs ys)))"

definition np_log :: "real \<Rightarrow> error + real" where
  "np_log x = (if x \<le> 0 then Inl FloatingPointError else Inr (ln x))"

definition np_sqrt :: "real list \<Rightarrow> error + real list" where
  "np_sqrt xs =
     (if list_ex (\<lambda>x. x < 0) xs then Inl FloatingPointError else Inr (map sqrt xs))"

subsection \<open>The belief state\<close>

text \<open>
  \<open>estimated_beta_params\<close> is a K by 2 array: row \<open>k\<close> holds the successes and the
  failures of arm \<open>k\<close>, each with its prior.
\<close>

type_synonym belief = "(real \<times> real) list"

text \<open>\<open>estimated_beta_params.sum(1)\<close>: the sum of each row.\<close>

definition sum_axis1 :: "belief \<Rightarrow> real list" where
  "sum_axis1 bs = map (\<lambda>(s, f). s + f) bs"

text \<open>\<open>estimated_beta_params.sum()\<close>: the sum of all entries.\<close>

definition sum_all :: "belief \<Rightarrow> real" where
  "sum_all bs = sum_list (sum_axis1 bs)"

text \<open>\<open>estimated_beta_params[:, 0]\<close> and \<open>estimated_beta_params[:, 1]\<close>.\<close>

definition column0 :: "belief \<Rightarrow> real list" where
  "column0 bs = map fst bs"

definition column1 :: "belief \<Rightarrow> real list" where
  "column1 bs = map snd bs"

subsection \<open>The six policies\<close>

text \<open>
  A policy receives the belief state and the random source and returns the chosen arm
  and the source after its draws. \<open>None\<close> is a call that never returns.
\<close>

type_synonym choice = "(error + nat \<times> rng) option"

type_synonym policy = "belief \<Rightarrow> rng \<Rightarrow> choice"

definition thompson_sampling :: policy where
  "thompson_sampling estimated_beta_params g =
     (case pm_rbeta (column0 estimated_beta_params) (column1 estimated_beta_params) g of
        (samples, g') \<Rightarrow>
          Some (bind_err (np_argmax samples) (\<lambda>a. Inr (a, g'))))"

definition random :: policy where
  "random estimated_beta_params g =
     Some (np_random_randint 0 (length estimated_beta_params) g)"

text \<open>
  \<open>naive\<close>, \<open>UCB\<close> and \<open>UCB_bernoulli\<close> make no draw. Each is modelled by a function of
  the belief state alone (\<open>naive_choice\<close> with the parameter \<open>number_to_explore\<close>,
  \<open>UCB_choice\<close>, \<open>UCB_bernoulli_choice\<close>) and by the policy that hands the random source
  back as it got it; \<open>naive\<close> is the call with the default \<open>number_to_explore=100\<close>.
\<close>

definition naive_choice :: "belief \<Rightarrow> real \<Rightarrow> error + nat" where
  "naive_choice estimated_beta_params number_to_explore =
     (let totals = sum_axis1 estimated_beta_params in
      if list_ex (\<lambda>t. t < number_to_explore) totals
      then np_argmin totals
      else (let successes = column0 estimated_beta_params in
            bind_err (np_divide successes totals) (\<lambda>estimated_means.
            np_argmax estimated_means)))"

definition naive :: policy where
  "naive estimated_beta_params g =
     Some (bind_err (naive_choice estimated_beta_params 100) (\<lambda>a. Inr (a, g)))"

text \<open>
  The resampling loop of \<open>epsilon_greedy\<close>:
  \<^verbatim>\<open>while other_choice == best_mean: other_choice = np.random.randint(0, len(...))\<close>.
  Nothing bounds the number of its rounds.
\<close>

partial_function (option) resample :: "nat \<Rightarrow> nat \<Rightarrow> nat \<Rightarrow> rng \<Rightarrow> choice" where
  "resample n best_mean other_choice g =
     (if other_choice = best_mean
      then (case np_random_randint 0 n g of
              Inl e \<Rightarrow> Some (Inl e)
            | Inr (other_choice', g') \<Rightarrow> resample n best_mean other_choice' g')
      else Some (Inr (other_choice, g)))"

text \<open>The best-mean arm that \<open>epsilon_greedy\<close> computes before it draws.\<close>

definition best_mean_arm :: "belief \<Rightarrow> error + nat" where
  "best_mean_arm estimated_beta_params =
     (let totals = sum_axis1 estimated_beta_params;
          successes = column0 estimated_beta_params in
      bind_err (np_divide successes totals) (\<lambda>estimated_means.
      np_argmax estimated_means))"

definition epsilon_greedy_with :: "real \<Rightarrow> policy" where
  "epsilon_greedy_with epsilon estimated_beta_params g =
     (case best_mean_arm estimated_beta_params of
        Inl e \<Rightarrow> Some (Inl e)
      | Inr best_mean \<Rightarrow>
          (case np_random_rand g of
             (u, g1) \<Rightarrow>
               (let be_exporatory = (u < epsilon) in
                if be_exporatory
                then (case np_random_randint 0 (length estimated_beta_params) g1 of
                        Inl e \<Rightarrow> Some (Inl e)
                      | Inr (other_choice, g2) \<Rightarrow>
                          resample (length estimated_beta_params) best_mean other_choice g2)
                else Some (Inr (best_mean, g1)))))"

text \<open>The call with the default \<open>epsilon=0.01\<close>, as the driver makes it.\<close>

definition epsilon_greedy :: policy where
  "epsilon_greedy = epsilon_greedy_with (1 / 100)"

text \<open>
  \<open>UCB\<close>: the vector of the upper confidence bounds, then its argmax. In Python,
  \<open>np.minimum(...) * np.log(t)/totals\<close> multiplies before it divides.
\<close>

definition UCB_scores :: "belief \<Rightarrow> error + real list" where
  "UCB_scores estimated_beta_params =
     (let t = sum_all estimated_beta_params;
          totals = sum_axis1 estimated_beta_params;
          successes = column0 estimated_beta_params in
      bind_err (np_divide successes totals) (\<lambda>estimated_means.
      let estimated_variances = map (\<lambda>m. m - m ^ 2) estimated_means in
      bind_err (np_log t) (\<lambda>log_t.
      bind_err (np_divide (map (\<lambda>_. 2 * log_t) totals) totals) (\<lambda>ratio.
      bind_err (np_sqrt ratio) (\<lambda>inner.
      let capped = map (\<lambda>(v, r). min (v + r) (1 / 4)) (zip estimated_variances inner) in
      bind_err (np_divide (map (\<lambda>c. c * log_t) capped) totals) (\<lambda>radicand.
      bind_err (np_sqrt radicand) (\<lambda>bonus.
      Inr (map (\<lambda>(m, b). m + b) (zip estimated_means bonus)))))))))"

definition UCB_choice :: "belief \<Rightarrow> error + nat" where
  "UCB_choice estimated_beta_params =
     bind_err (UCB_scores estimated_beta_params) np_argmax"

definition UCB :: policy where
  "UCB estimated_beta_params g =
     Some (bind_err (UCB_choice estimated_beta_params) (\<lambda>a. Inr (a, g)))"

text \<open>\<open>UCB_bernoulli\<close>: the mean plus 1.96 standard errors.\<close>

definition UCB_bernoulli_scores :: "belief \<Rightarrow> error + real list" where
  "UCB_bernoulli_scores estimated_beta_params =
     (let totals = sum_axis1 estimated_beta_params;
          successes = column0 estimated_beta_params in
      bind_err (np_divide successes totals) (\<lambda>estimated_means.
      let estimated_variances = map (\<lambda>m. m - m ^ 2) estimated_means in
      bind_err (np_divide estimated_variances totals) (\<lambda>ratio.
      bind_err (np_sqrt ratio) (\<lambda>root.
      Inr (map (\<lambda>(m, r). m + 196 / 100 * r) (zip estimated_means root))))))"

definition UCB_bernoulli_choice :: "belief \<Rightarrow> error + nat" where
  "UCB_bernoulli_choice estimated_beta_params =
     bind_err (UCB_bernoulli_scores estimated_beta_params) np_argmax"

definition UCB_bernoulli :: policy where
  "UCB_bernoulli estimated_beta_params g =
     Some (bind_err (UCB_bernoulli_choice estimated_beta_params) (\<lambda>a. Inr (a, g)))"

subsection \<open>Two-dimensional arrays\<close>

text \<open>
  A matrix is the list of its rows. Its shape is the number of rows and the length of
  the first row; a matrix with no row has no column here, which loses nothing: the
  runner reads the number of columns only to build the belief state, and with no row it
  runs no round.
\<close>

definition shape :: "'a list list \<Rightarrow> nat \<times> nat" where
  "shape m = (length m, case m of [] \<Rightarrow> 0 | r # _ \<Rightarrow> length r)"

text \<open>\<open>m[i, j]\<close> and \<open>v[i]\<close>, with the bounds check that NumPy makes.\<close>

definition index2 :: "'a list list \<Rightarrow> nat \<Rightarrow> nat \<Rightarrow> error + 'a" where
  "index2 m i j =
     (if i < length m \<and> j < length (m ! i) then Inr (m ! i ! j) else Inl IndexError)"

definition index1 :: "'a list \<Rightarrow> nat \<Rightarrow> error + 'a" where
  "index1 v i = (if i < length v then Inr (v ! i) else Inl IndexError)"

text \<open>\<open>np.max(m, 0)\<close>: the maximum of each column; an error when there is no row.\<close>

definition np_max_axis0 :: "real list list \<Rightarrow> error + real list" where
  "np_max_axis0 m =
     (case m of
        [] \<Rightarrow> Inl ValueError
      | r # rs \<Rightarrow> Inr (fold (\<lambda>row acc. map (\<lambda>(a, b). max a b) (zip acc row)) rs r))"

text \<open>\<open>np.cumsum\<close>: the running sums.\<close>

fun cumsum_from :: "real \<Rightarrow> real list \<Rightarrow> real list" where
  "cumsum_from acc [] = []"
| "cumsum_from acc (x # xs) = (acc + x) # cumsum_from (acc + x) xs"

definition np_cumsum :: "real list \<Rightarrow> real list" where
  "np_cumsum xs = cumsum_from 0 xs"

text \<open>\<open>np.tile(v, (n, 1))\<close>: the vector repeated as each of \<open>n\<close> rows.\<close>

definition np_tile :: "real list \<Rightarrow> nat \<Rightarrow> real list list" where
  "np_tile v n = replicate n v"

subsection \<open>The episode runner\<close>

text \<open>The prior: \<open>np.zeros((K,2))\<close>, then \<open>prior_a\<close> and \<open>prior_b\<close> added to the columns.\<close>

definition prior_belief :: "nat \<Rightarrow> belief" where
  "prior_belief K =
     (let prior_a = 1; prior_b = 1 in
      map (\<lambda>(s, f). (s + prior_a, f + prior_b)) (replicate K (0, 0)))"

text \<open>\<open>estimated_beta_params[this_choice, update_ind] += 1\<close>.\<close>

definition increment :: "belief \<Rightarrow> nat \<Rightarrow> nat \<Rightarrow> error + belief" where
  "increment bs this_choice update_ind =
     (if this_choice < length bs \<and> update_ind < 2
      then Inr (bs[this_choice :=
                  (case bs ! this_choice of
                     (s, f) \<Rightarrow> if update_ind = 0 then (s + 1, f) else (s, f + 1))])
      else Inl IndexError)"

text \<open>
  The variables of the loop. \<open>pulls\<close> is not a variable of the source: it keeps the
  values \<open>this_choice\<close> has taken, oldest first, so that the chosen arms can be spoken of.
\<close>

record episode =
  estimated_beta_params :: belief
  regret :: "real list"
  god_regret :: "real list"
  source :: rng
  pulls :: "nat list"

type_synonym 'a outcome = "(error + 'a) option"

text \<open>The \<open>for\<close> loop over a range: it stops at the first round that fails or hangs.\<close>

fun for_each :: "(nat \<Rightarrow> 's \<Rightarrow> 's outcome) \<Rightarrow> nat list \<Rightarrow> 's \<Rightarrow> 's outcome" where
  "for_each body [] st = Some (Inr st)"
| "for_each body (i # is) st =
     (case body i st of
        None \<Rightarrow> None
      | Some (Inl e) \<Rightarrow> Some (Inl e)
      | Some (Inr st') \<Rightarrow> for_each body is st')"

text \<open>The realized-regret signal of one round (lines 112 to 117).\<close>

definition god_signal :: "bool \<Rightarrow> bool \<Rightarrow> real" where
  "god_signal best_reward chosen_reward =
     (if best_reward \<and> \<not> chosen_reward then 1
      else if \<not> best_reward \<and> chosen_reward then - 1
      else 0)"

text \<open>One round of the loop (lines 98 to 117).\<close>

definition one_round :: "bool list list \<Rightarrow> real list list \<Rightarrow> policy \<Rightarrow> real list \<Rightarrow> nat \<Rightarrow>
    nat \<Rightarrow> episode \<Rightarrow> episode outcome" where
  "one_round true_rewards CTRs choice_func bandit_distri best_bandit_idx i st =
     (case choice_func (estimated_beta_params st) (source st) of
        None \<Rightarrow> None
      | Some (Inl e) \<Rightarrow> Some (Inl e)
      | Some (Inr (this_choice, g')) \<Rightarrow>
          Some (
            bind_err (index2 true_rewards i this_choice) (\<lambda>chosen_reward.
            let update_ind = (if chosen_reward then 0 else 1) in
            bind_err (increment (estimated_beta_params st) this_choice update_ind) (\<lambda>bs'.
            bind_err (index1 bandit_distri best_bandit_idx) (\<lambda>best_ctr.
            bind_err (index2 CTRs i this_choice) (\<lambda>chosen_ctr.
            bind_err (index2 true_rewards i best_bandit_idx) (\<lambda>best_reward.
            Inr (st\<lparr>estimated_beta_params := bs',
                    regret := (regret st)[i := best_ctr - chosen_ctr],
                    god_regret := (god_regret st)[i := god_signal best_reward chosen_reward],
                    source := g',
                    pulls := pulls st @ [this_choice]\<rparr>))))))))"

text \<open>The state before the first round (lines 85 to 93).\<close>

definition initial_episode :: "bool list list \<Rightarrow> rng \<Rightarrow> episode" where
  "initial_episode true_rewards g =
     (case shape true_rewards of
        (num_samples, K) \<Rightarrow>
          \<lparr>estimated_beta_params = prior_belief K,
           regret = replicate num_samples 0,
           god_regret = replicate num_samples 0,
           source = g,
           pulls = []\<rparr>)"

text \<open>
  The state after the first \<open>n\<close> rounds; \<open>run_rounds\<close> with \<open>n = num_samples\<close> is the
  whole loop.
\<close>

definition run_rounds :: "bool list list \<Rightarrow> real list list \<Rightarrow> policy \<Rightarrow> nat \<Rightarrow> rng \<Rightarrow>
    episode outcome" where
  "run_rounds true_rewards CTRs choice_func n g =
     (case np_max_axis0 CTRs of
        Inl e \<Rightarrow> Some (Inl e)
      | Inr bandit_distri \<Rightarrow>
          (case np_argmax bandit_distri of
             Inl e \<Rightarrow> Some (Inl e)
           | Inr best_bandit_idx \<Rightarrow>
               for_each (one_round true_rewards CTRs choice_func bandit_distri best_bandit_idx)
                 [0..<n] (initial_episode true_rewards g)))"

text \<open>
  \<open>run_bandit_dynamic_alg\<close>: the loop over all rounds, the two cumulative sums, and the
  return of the second one. The random source after the run is returned with it.
\<close>

definition run_bandit_dynamic_alg :: "bool list list \<Rightarrow> real list list \<Rightarrow> policy \<Rightarrow> rng \<Rightarrow>
    (real list \<times> rng) outcome" where
  "run_bandit_dynamic_alg true_rewards CTRs choice_func g =
     (case run_rounds true_rewards CTRs choice_func (fst (shape true_rewards)) g of
        None \<Rightarrow> None
      | Some (Inl e) \<Rightarrow> Some (Inl e)
      | Some (Inr st) \<Rightarrow>
          (let cum_regret = np_cumsum (regret st);
               god_cum_regret = np_cumsum (god_regret st)
           in Some (Inr (god_cum_regret, source st))))"

subsection \<open>The experiment driver\<close>

text \<open>
  Line 11, run once when the module is loaded: one vector of K uniform draws, tiled to
  \<open>num_samples\<close> equal rows.
\<close>

definition CTRs_that_generated_data :: "nat \<Rightarrow> nat \<Rightarrow> rng \<Rightarrow> real list list \<times> rng" where
  "CTRs_that_generated_data num_samples K g =
     (case np_random_rand1 K g of (v, g') \<Rightarrow> (np_tile v num_samples, g'))"

text \<open>
  \<open>generate_bernoulli_bandit_data\<close> compares a fresh matrix of uniform draws with the
  module-level matrix \<open>CTRs\<close>, entry by entry (the two have one shape).
\<close>

definition generate_bernoulli_bandit_data :: "real list list \<Rightarrow> nat \<Rightarrow> nat \<Rightarrow> rng \<Rightarrow>
    bool list list \<times> rng" where
  "generate_bernoulli_bandit_data CTRs num_samples K g =
     (case np_random_rand2 num_samples K g of
        (u, g') \<Rightarrow>
          (map (\<lambda>(urow, crow). map (\<lambda>(x, c). x < c) (zip urow crow)) (zip u CTRs), g'))"

text \<open>
  \<open>regret_accumulator[:, j] += v\<close> on a matrix given by its rows (the matrix has as many
  rows as \<open>v\<close> has entries).
\<close>

definition add_column :: "real list list \<Rightarrow> nat \<Rightarrow> real list \<Rightarrow> real list list" where
  "add_column acc j v = map (\<lambda>(row, x). row[j := row ! j + x]) (zip acc v)"

text \<open>
  The state of the driver's loop. \<open>runs\<close> is not a variable of the source: it keeps
  the calls of \<open>run_bandit_dynamic_alg\<close> made so far, oldest first, each as the column
  its result is added to, the probability matrix and the reward matrix it was given.
\<close>

record driver =
  regret_accumulator :: "real list list"
  generator :: rng
  runs :: "(nat \<times> real list list \<times> bool list list) list"

text \<open>One run of a policy inside an experiment, added to column \<open>j\<close> (lines 133 to 144).\<close>

definition accumulate :: "bool list list \<Rightarrow> real list list \<Rightarrow> nat \<Rightarrow> policy \<Rightarrow> driver \<Rightarrow>
    driver outcome" where
  "accumulate true_rewards CTRs j choice_func d =
     (case run_bandit_dynamic_alg true_rewards CTRs choice_func (generator d) of
        None \<Rightarrow> None
      | Some (Inl e) \<Rightarrow> Some (Inl e)
      | Some (Inr (v, g')) \<Rightarrow>
          Some (Inr (d\<lparr>regret_accumulator := add_column (regret_accumulator d) j v,
                       generator := g',
                       runs := runs d @ [(j, CTRs, true_rewards)]\<rparr>)))"

definition then_do :: "'a outcome \<Rightarrow> ('a \<Rightarrow> 'b outcome) \<Rightarrow> 'b outcome" where
  "then_do m f =
     (case m of None \<Rightarrow> None | Some (Inl e) \<Rightarrow> Some (Inl e) | Some (Inr x) \<Rightarrow> f x)"

text \<open>The body of the driver's loop (lines 131 to 144).\<close>

definition run_experiment :: "real list list \<Rightarrow> nat \<Rightarrow> nat \<Rightarrow> nat \<Rightarrow> driver \<Rightarrow> driver outcome" where
  "run_experiment CTRs num_samples K i d =
     (case generate_bernoulli_bandit_data CTRs num_samples K (generator d) of
        (true_rewards, g') \<Rightarrow>
          then_do (accumulate true_rewards CTRs 0 random (d\<lparr>generator := g'\<rparr>)) (\<lambda>d.
          then_do (accumulate true_rewards CTRs 1 naive d) (\<lambda>d.
          then_do (accumulate true_rewards CTRs 2 epsilon_greedy d) (\<lambda>d.
          then_do (accumulate true_rewards CTRs 3 UCB d) (\<lambda>d.
          then_do (accumulate true_rewards CTRs 4 UCB_bernoulli d) (\<lambda>d.
          accumulate true_rewards CTRs 5 thompson_sampling d))))))"

text \<open>
  The script from line 8 to line 144, with its three constants as parameters:
  the probabilities are drawn, the accumulator is zeroed, and the experiments run.
\<close>

definition simulation :: "nat \<Rightarrow> nat \<Rightarrow> nat \<Rightarrow> rng \<Rightarrow> driver outcome" where
  "simulation num_samples K number_experiments g =
     (case CTRs_that_generated_data num_samples K g of
        (CTRs, g') \<Rightarrow>
          for_each (run_experiment CTRs num_samples K) [0..<number_experiments]
            \<lparr>regret_accumulator = replicate num_samples (replicate 6 0),
             generator = g',
             runs = []\<rparr>)"

text \<open>The script as it stands: \<open>num_samples = 10000\<close>, \<open>K = 5\<close>, \<open>number_experiments = 100\<close>.\<close>

definition script :: "rng \<Rightarrow> driver outcome" where
  "script = simulation 10000 5 100"

subsection \<open>The vocabulary of the specification\<close>

text \<open>
  The first index of the greatest, or of the least, element of a vector: what an argmax
  or argmin scan finds.
\<close>

definition first_max :: "real list \<Rightarrow> nat \<Rightarrow> bool" where
  "first_max xs k \<longleftrightarrow>
     k < length xs \<and> (\<forall>j < length xs. xs ! j \<le> xs ! k) \<and> (\<forall>j < k. xs ! j < xs ! k)"

definition first_min :: "real list \<Rightarrow> nat \<Rightarrow> bool" where
  "first_min xs k \<longleftrightarrow>
     k < length xs \<and> (\<forall>j < length xs. xs ! k \<le> xs ! j) \<and> (\<forall>j < k. xs ! k < xs ! j)"

text \<open>
  The count of an arm as the belief state holds it, the sum of its row, and its
  empirical success rate \<open>successes / total\<close>.
\<close>

definition row_total :: "belief \<Rightarrow> nat \<Rightarrow> real" where
  "row_total bs k = fst (bs ! k) + snd (bs ! k)"

definition success_rate :: "belief \<Rightarrow> nat \<Rightarrow> real" where
  "success_rate bs k = fst (bs ! k) / row_total bs k"

text \<open>The least-pulled arm and the arm of the highest success rate, first among equals.\<close>

definition least_pulled :: "belief \<Rightarrow> nat \<Rightarrow> bool" where
  "least_pulled bs k \<longleftrightarrow>
     k < length bs \<and> (\<forall>j < length bs. row_total bs k \<le> row_total bs j) \<and>
     (\<forall>j < k. row_total bs k < row_total bs j)"

definition best_rate :: "belief \<Rightarrow> nat \<Rightarrow> bool" where
  "best_rate bs k \<longleftrightarrow>
     k < length bs \<and> (\<forall>j < length bs. success_rate bs j \<le> success_rate bs k) \<and>
     (\<forall>j < k. success_rate bs j < success_rate bs k)"

text \<open>The invariant of the belief state: both entries of every row are at least the prior 1.\<close>

definition at_least_prior :: "belief \<Rightarrow> bool" where
  "at_least_prior bs \<longleftrightarrow> (\<forall>k < length bs. 1 \<le> fst (bs ! k) \<and> 1 \<le> snd (bs ! k))"

text \<open>
  The score of the tuned upper confidence bound, as the specification writes it: \<open>t\<close> is
  the sum of the counts of all arms and \<open>n\<close> the count of the arm.
\<close>

definition total_count :: "belief \<Rightarrow> real" where
  "total_count bs = (\<Sum>k < length bs. row_total bs k)"

definition ucb_variance :: "belief \<Rightarrow> nat \<Rightarrow> real" where
  "ucb_variance bs k = success_rate bs k - (success_rate bs k) ^ 2"

definition ucb_bonus :: "belief \<Rightarrow> nat \<Rightarrow> real" where
  "ucb_bonus bs k =
     sqrt (min (ucb_variance bs k + sqrt (2 * ln (total_count bs) / row_total bs k)) (1 / 4)
           * ln (total_count bs) / row_total bs k)"

definition ucb_score :: "belief \<Rightarrow> nat \<Rightarrow> real" where
  "ucb_score bs k = success_rate bs k + ucb_bonus bs k"


text \<open>
  The belief states of claim C7: the prior of the runner, and whatever the runner's
  update makes of such a state.
\<close>

inductive incremented_from_prior :: "nat \<Rightarrow> belief \<Rightarrow> bool" for K :: nat where
  start: "incremented_from_prior K (prior_belief K)"
| step: "incremented_from_prior K bs \<Longrightarrow> increment bs a c = Inr bs' \<Longrightarrow>
         incremented_from_prior K bs'"

text \<open>The score of the fixed-confidence variant: the mean plus 1.96 standard errors.\<close>

definition bernoulli_score :: "belief \<Rightarrow> nat \<Rightarrow> real" where
  "bernoulli_score bs k =
     success_rate bs k + 196 / 100 * sqrt (ucb_variance bs k / row_total bs k)"

text \<open>
  What holds of the loop variables after \<open>n\<close> rounds on the reward matrix, with \<open>best\<close> the
  index of the best true arm.
\<close>

definition episode_inv :: "bool list list \<Rightarrow> nat \<Rightarrow> nat \<Rightarrow> episode \<Rightarrow> bool" where
  "episode_inv true_rewards best n st \<longleftrightarrow>
     n \<le> length true_rewards \<and>
     length (pulls st) = n \<and>
     length (god_regret st) = length true_rewards \<and>
     length (estimated_beta_params st) = snd (shape true_rewards) \<and>
     at_least_prior (estimated_beta_params st) \<and>
     (\<forall>k < length (estimated_beta_params st).
        row_total (estimated_beta_params st) k = real (count_list (pulls st) k) + 2) \<and>
     (\<forall>i < n. pulls st ! i < length (estimated_beta_params st) \<and>
        god_regret st ! i =
          god_signal (true_rewards ! i ! best) (true_rewards ! i ! (pulls st ! i)))"

text \<open>
  Two random sources give the same sequence of draws when, for every \<open>m\<close>, the call
  number \<open>m\<close> from now returns the same values in both. The two sources may have made
  different numbers of calls before.
\<close>

definition same_draws :: "rng \<Rightarrow> rng \<Rightarrow> bool" where
  "same_draws g1 g2 \<longleftrightarrow>
     (\<forall>m. rand_out g1 (calls g1 + m) = rand_out g2 (calls g2 + m) \<and>
          randint_out g1 (calls g1 + m) = randint_out g2 (calls g2 + m) \<and>
          rbeta_out g1 (calls g1 + m) = rbeta_out g2 (calls g2 + m))"

text \<open>The six policies that the driver passes to the runner.\<close>

definition six_policies :: "policy list" where
  "six_policies = [random, naive, epsilon_greedy, UCB, UCB_bernoulli, thompson_sampling]"

text \<open>Two outcomes that agree but for the random sources, which give the same draws.\<close>

definition same_outcome :: "('a \<Rightarrow> 'a \<Rightarrow> bool) \<Rightarrow> 'a outcome \<Rightarrow> 'a outcome \<Rightarrow> bool" where
  "same_outcome R x y = rel_option (rel_sum (=) R) x y"

definition same_episode :: "episode \<Rightarrow> episode \<Rightarrow> bool" where
  "same_episode s1 s2 \<longleftrightarrow>
     estimated_beta_params s1 = estimated_beta_params s2 \<and> regret s1 = regret s2 \<and>
     god_regret s1 = god_regret s2 \<and> pulls s1 = pulls s2 \<and>
     same_draws (source s1) (source s2)"

text \<open>
  The inputs the driver gives the runner: a reward matrix with at least one round and
  \<open>K \<ge> 1\<close> arms, and a probability matrix of the same shape.
\<close>

definition well_shaped :: "bool list list \<Rightarrow> real list list \<Rightarrow> nat \<Rightarrow> bool" where
  "well_shaped true_rewards CTRs K \<longleftrightarrow>
     true_rewards \<noteq> [] \<and> 0 < K \<and> length CTRs = length true_rewards \<and>
     (\<forall>i < length true_rewards. length (true_rewards ! i) = K \<and> length (CTRs ! i) = K)"

text \<open>The five policies that have no loop.\<close>

definition loop_free_policies :: "policy list" where
  "loop_free_policies = [random, naive, UCB, UCB_bernoulli, thompson_sampling]"

subsection \<open>Concrete inputs\<close>

text \<open>A random source whose uniform draws are all one half and whose integer draws are all zero.\<close>

definition quiet :: rng where
  "quiet = \<lparr>rand_out = (\<lambda>c j. 1 / 2), randint_out = (\<lambda>c n. 0),
            rbeta_out = (\<lambda>c j a b. a / (a + b)), calls = 0\<rparr>"

text \<open>
  A random source that always explores (its uniform draws are 0) and whose integer draw
  at call \<open>c\<close> is \<open>(c + 1) mod n\<close>.
\<close>

definition eager :: rng where
  "eager = \<lparr>rand_out = (\<lambda>c j. 0), randint_out = (\<lambda>c n. Suc c mod n),
            rbeta_out = (\<lambda>c j a b. a / (a + b)), calls = 0\<rparr>"

text \<open>A random source that always explores and whose integer draws are all zero.\<close>

definition stuck :: rng where
  "stuck = \<lparr>rand_out = (\<lambda>c j. 0), randint_out = (\<lambda>c n. 0),
            rbeta_out = (\<lambda>c j a b. a / (a + b)), calls = 0\<rparr>"

text \<open>
  A small episode: two rounds on two arms with the true probabilities 0.7 and 0.4. Arm 0
  pays in round 0 only and arm 1 in round 1 only.
\<close>

definition example_rewards :: "bool list list" where
  "example_rewards = [[True, False], [False, True]]"

definition example_CTRs :: "real list list" where
  "example_CTRs = [[7 / 10, 4 / 10], [7 / 10, 4 / 10]]"

definition after_round_0 :: episode where
  "after_round_0 = \<lparr>estimated_beta_params = [(2, 1), (1, 1)], regret = [0, 0],
      god_regret = [0, 0], source = quiet, pulls = [0]\<rparr>"

definition after_round_1 :: episode where
  "after_round_1 = \<lparr>estimated_beta_params = [(2, 1), (2, 1)], regret = [0, 3 / 10],
      god_regret = [0, - 1], source = quiet, pulls = [0, 1]\<rparr>"

text \<open>
  The source \<open>eager\<close> after five calls that it did not make: call \<open>5 + m\<close> of \<open>late\<close>
  returns what call \<open>m\<close> of \<open>eager\<close> returns.
\<close>

definition late :: rng where
  "late = \<lparr>rand_out = (\<lambda>c j. 0), randint_out = (\<lambda>c n. (c - 4) mod n),
           rbeta_out = (\<lambda>c j a b. a / (a + b)), calls = 5\<rparr>"

text \<open>
  A random source whose calls all return different values: every element of call \<open>c\<close> of
  \<open>np.random.rand\<close> is \<open>1 / (c + 2)\<close>.
\<close>

definition counting :: rng where
  "counting = \<lparr>rand_out = (\<lambda>c j. 1 / (real c + 2)), randint_out = (\<lambda>c n. c mod n),
               rbeta_out = (\<lambda>c j a b. a / (a + b)), calls = 0\<rparr>"

text \<open>What the script leaves on \<open>counting\<close> with one round, two arms and two experiments.\<close>

definition counting_result :: driver where
  "counting_result =
     \<lparr>regret_accumulator = [[0, 0, 0, 0, 0, 0]],
      generator = counting\<lparr>calls := 9\<rparr>,
      runs = concat (map (\<lambda>R. map (\<lambda>j. (j, [[1 / 2, 1 / 2]], R)) [0..<6])
                    [[[True, True]], [[True, True]]])\<rparr>"

section \<open>Lemmas\<close>

lemma arg_scan_max:
  "first_max ys bi \<Longrightarrow> ys ! bi = bv \<Longrightarrow>
   first_max (ys @ xs) (arg_scan (\<lambda>a b. b < a) xs (length ys) bv bi)"
proof (induction xs arbitrary: ys bv bi)
  case Nil
  then show ?case by simp
next
  case (Cons x xs)
  show ?case
  proof (cases "bv < x")
    case True
    have "first_max (ys @ [x]) (length ys)"
      using Cons.prems True
      by (auto simp: first_max_def nth_append less_Suc_eq intro: less_imp_le order.strict_trans1)
    from Cons.IH[OF this, of x] True show ?thesis by simp
  next
    case False
    have "first_max (ys @ [x]) bi"
      using Cons.prems False
      by (auto simp: first_max_def nth_append less_Suc_eq)
    from Cons.IH[OF this, of bv] Cons.prems False show ?thesis
      by (simp add: nth_append first_max_def)
  qed
qed

lemma np_argmax_first_max:
  assumes "xs \<noteq> []"
  shows "\<exists>k. np_argmax xs = Inr k \<and> first_max xs k"
proof -
  from assms obtain x rest where xs: "xs = x # rest" by (cases xs) auto
  have "first_max [x] 0" by (simp add: first_max_def)
  from arg_scan_max[OF this, of x rest] show ?thesis
    by (simp add: xs np_argmax_def)
qed

lemma arg_scan_min:
  "first_min ys bi \<Longrightarrow> ys ! bi = bv \<Longrightarrow>
   first_min (ys @ xs) (arg_scan (\<lambda>a b. a < b) xs (length ys) bv bi)"
proof (induction xs arbitrary: ys bv bi)
  case Nil
  then show ?case by simp
next
  case (Cons x xs)
  show ?case
  proof (cases "x < bv")
    case True
    have "first_min (ys @ [x]) (length ys)"
      using Cons.prems True
      by (auto simp: first_min_def nth_append less_Suc_eq intro: less_imp_le order.strict_trans2)
    from Cons.IH[OF this, of x] True show ?thesis by simp
  next
    case False
    have "first_min (ys @ [x]) bi"
      using Cons.prems False
      by (auto simp: first_min_def nth_append less_Suc_eq)
    from Cons.IH[OF this, of bv] Cons.prems False show ?thesis
      by (simp add: nth_append first_min_def)
  qed
qed

lemma np_argmin_first_min:
  assumes "xs \<noteq> []"
  shows "\<exists>k. np_argmin xs = Inr k \<and> first_min xs k"
proof -
  from assms obtain x rest where xs: "xs = x # rest" by (cases xs) auto
  have "first_min [x] 0" by (simp add: first_min_def)
  from arg_scan_min[OF this, of x rest] show ?thesis
    by (simp add: xs np_argmin_def)
qed

lemma first_max_unique: "first_max xs k \<Longrightarrow> first_max xs k' \<Longrightarrow> k = k'"
  unfolding first_max_def by (metis linorder_neqE_nat not_less)

lemma sum_axis1_nth: "k < length bs \<Longrightarrow> sum_axis1 bs ! k = row_total bs k"
  by (simp add: sum_axis1_def row_total_def case_prod_beta)

lemma length_sum_axis1 [simp]: "length (sum_axis1 bs) = length bs"
  by (simp add: sum_axis1_def)

lemma first_min_totals: "first_min (sum_axis1 bs) k \<longleftrightarrow> least_pulled bs k"
  by (auto simp: first_min_def least_pulled_def sum_axis1_nth)

lemma list_ex_totals:
  "list_ex (\<lambda>t. t < b) (sum_axis1 bs) \<longleftrightarrow> (\<exists>k < length bs. row_total bs k < b)"
proof
  assume "list_ex (\<lambda>t. t < b) (sum_axis1 bs)"
  then obtain i where "i < length (sum_axis1 bs)" "sum_axis1 bs ! i < b"
    by (auto simp: list_ex_iff in_set_conv_nth)
  then show "\<exists>k < length bs. row_total bs k < b"
    by (auto simp: sum_axis1_nth)
next
  assume "\<exists>k < length bs. row_total bs k < b"
  then obtain k where k: "k < length bs" "row_total bs k < b" by blast
  then have "sum_axis1 bs ! k \<in> set (sum_axis1 bs)" by simp
  with k show "list_ex (\<lambda>t. t < b) (sum_axis1 bs)"
    unfolding list_ex_iff by (metis sum_axis1_nth)
qed

lemma means_closed_form:
  assumes "\<forall>k < length bs. row_total bs k \<noteq> 0"
  shows "np_divide (column0 bs) (sum_axis1 bs) = Inr (map (success_rate bs) [0..<length bs])"
proof -
  have "\<not> list_ex (\<lambda>y. y = 0) (sum_axis1 bs)"
    using assms by (auto simp: list_ex_iff in_set_conv_nth sum_axis1_nth)
  moreover have "map (\<lambda>(x, y). x / y) (zip (column0 bs) (sum_axis1 bs))
      = map (success_rate bs) [0..<length bs]"
    by (rule nth_equalityI)
       (simp_all add: column0_def sum_axis1_def success_rate_def row_total_def case_prod_beta)
  ultimately show ?thesis by (simp add: np_divide_def)
qed

lemma first_max_rates:
  "first_max (map (success_rate bs) [0..<length bs]) k \<longleftrightarrow> best_rate bs k"
  by (auto simp: first_max_def best_rate_def)

lemma best_mean_arm_best_rate:
  assumes "bs \<noteq> []" and "\<forall>k < length bs. row_total bs k \<noteq> 0"
  shows "\<exists>k. best_mean_arm bs = Inr k \<and> best_rate bs k"
proof -
  have "map (success_rate bs) [0..<length bs] \<noteq> []" using assms(1) by simp
  from np_argmax_first_max[OF this] show ?thesis
    by (simp add: best_mean_arm_def means_closed_form[OF assms(2)] first_max_rates)
qed

lemma naive_choice_explore:
  assumes "bs \<noteq> []" and "\<exists>k < length bs. row_total bs k < b"
  shows "\<exists>k. naive_choice bs b = Inr k \<and> least_pulled bs k"
proof -
  have "sum_axis1 bs \<noteq> []" using assms(1) by (simp add: sum_axis1_def)
  from np_argmin_first_min[OF this] assms(2) show ?thesis
    by (simp add: naive_choice_def list_ex_totals first_min_totals)
qed

lemma naive_choice_exploit:
  assumes "bs \<noteq> []" and "0 < b" and "\<forall>k < length bs. b \<le> row_total bs k"
  shows "\<exists>k. naive_choice bs b = Inr k \<and> best_rate bs k"
proof -
  have nz: "\<forall>k < length bs. row_total bs k \<noteq> 0" using assms(2,3) by fastforce
  have "\<not> list_ex (\<lambda>t. t < b) (sum_axis1 bs)"
    using assms(3) by (auto simp: list_ex_totals not_less)
  with best_mean_arm_best_rate[OF assms(1) nz] show ?thesis
    by (simp add: naive_choice_def best_mean_arm_def Let_def)
qed

lemma increment_row_total:
  assumes "increment bs a c = Inr bs'" and "k < length bs'"
  shows "length bs' = length bs \<and> row_total bs k \<le> row_total bs' k"
  using assms
  by (auto simp: increment_def row_total_def nth_list_update case_prod_beta split: if_splits)

lemma sum_all_total_count: "sum_all bs = total_count bs"
proof -
  have "sum_list (sum_axis1 bs) = (\<Sum>i = 0..<length (sum_axis1 bs). sum_axis1 bs ! i)"
    by (rule sum_list_sum_nth)
  also have "\<dots> = (\<Sum>k < length bs. row_total bs k)"
    by (rule sum.cong) (auto simp: sum_axis1_nth)
  finally show ?thesis by (simp add: sum_all_def total_count_def)
qed

lemma at_least_prior_total: "at_least_prior bs \<Longrightarrow> k < length bs \<Longrightarrow> 2 \<le> row_total bs k"
  by (fastforce simp: at_least_prior_def row_total_def)

lemma at_least_prior_count:
  assumes "at_least_prior bs" and "bs \<noteq> []"
  shows "2 \<le> total_count bs"
proof -
  have "(\<Sum>k < length bs. (2::real)) \<le> (\<Sum>k < length bs. row_total bs k)"
    by (rule sum_mono) (simp add: at_least_prior_total[OF assms(1)])
  moreover have "1 \<le> length bs" using assms(2) by (cases bs) auto
  then have "(2::real) \<le> 2 * real (length bs)" by simp
  ultimately show ?thesis by (simp add: total_count_def)
qed

lemma success_rate_bounds:
  assumes "at_least_prior bs" and "k < length bs"
  shows "0 \<le> success_rate bs k \<and> success_rate bs k \<le> 1"
proof -
  from assms have "1 \<le> fst (bs ! k)" "1 \<le> snd (bs ! k)" by (auto simp: at_least_prior_def)
  then show ?thesis by (simp add: success_rate_def row_total_def)
qed

lemma ucb_variance_nonneg:
  assumes "at_least_prior bs" and "k < length bs"
  shows "0 \<le> ucb_variance bs k"
proof -
  from success_rate_bounds[OF assms] have "0 \<le> success_rate bs k * (1 - success_rate bs k)"
    by (intro mult_nonneg_nonneg) auto
  then show ?thesis by (simp add: ucb_variance_def power2_eq_square algebra_simps)
qed

lemma np_divide_nth:
  assumes "\<forall>y \<in> set ys. y \<noteq> 0" and "length xs = length ys"
  shows "np_divide xs ys = Inr (map (\<lambda>k. xs ! k / ys ! k) [0..<length ys])"
proof -
  have "\<not> list_ex (\<lambda>y. y = 0) ys" using assms(1) by (auto simp: list_ex_iff)
  moreover have "map (\<lambda>(x, y). x / y) (zip xs ys) = map (\<lambda>k. xs ! k / ys ! k) [0..<length ys]"
    using assms(2) by (intro nth_equalityI) simp_all
  ultimately show ?thesis by (simp add: np_divide_def)
qed

lemma np_sqrt_nth:
  assumes "\<forall>x \<in> set xs. 0 \<le> x"
  shows "np_sqrt xs = Inr (map (\<lambda>k. sqrt (xs ! k)) [0..<length xs])"
proof -
  have "\<not> list_ex (\<lambda>x. x < 0) xs" using assms by (auto simp: list_ex_iff not_less)
  moreover have "map sqrt xs = map (\<lambda>k. sqrt (xs ! k)) [0..<length xs]"
    by (intro nth_equalityI) simp_all
  ultimately show ?thesis by (simp add: np_sqrt_def)
qed

lemma totals_nonzero:
  assumes "at_least_prior bs"
  shows "\<forall>y \<in> set (sum_axis1 bs). y \<noteq> 0"
proof
  fix y assume "y \<in> set (sum_axis1 bs)"
  then obtain k where "k < length bs" "y = sum_axis1 bs ! k"
    by (auto simp: in_set_conv_nth)
  with at_least_prior_total[OF assms, of k] show "y \<noteq> 0"
    by (simp add: sum_axis1_nth)
qed

lemma UCB_scores_closed_form:
  assumes ok: "at_least_prior bs" and ne: "bs \<noteq> []"
  shows "UCB_scores bs = Inr (map (ucb_score bs) [0..<length bs])"
proof -
  define n where "n = length bs"
  define L where "L = ln (total_count bs)"
  have t: "2 \<le> total_count bs" by (rule at_least_prior_count[OF ok ne])
  then have L0: "0 \<le> L" by (simp add: L_def)
  have pos: "\<And>k. k < n \<Longrightarrow> 0 < row_total bs k"
    using at_least_prior_total[OF ok] by (fastforce simp: n_def)
  have nz: "\<forall>y \<in> set (sum_axis1 bs). y \<noteq> 0" by (rule totals_nonzero[OF ok])
  have means: "np_divide (column0 bs) (sum_axis1 bs) = Inr (map (success_rate bs) [0..<n])"
    unfolding n_def by (rule means_closed_form) (use pos in \<open>fastforce simp: n_def\<close>)
  have logt: "np_log (sum_all bs) = Inr L"
    using t by (simp add: np_log_def sum_all_total_count L_def)
  have ratio: "np_divide (map (\<lambda>_. 2 * L) (sum_axis1 bs)) (sum_axis1 bs)
      = Inr (map (\<lambda>k. 2 * L / row_total bs k) [0..<n])"
    by (simp add: np_divide_nth[OF nz] n_def sum_axis1_nth)
  have inner: "np_sqrt (map (\<lambda>k. 2 * L / row_total bs k) [0..<n])
      = Inr (map (\<lambda>k. sqrt (2 * L / row_total bs k)) [0..<n])"
  proof -
    have "\<forall>x \<in> set (map (\<lambda>k. 2 * L / row_total bs k) [0..<n]). 0 \<le> x"
      using L0 pos by (auto intro!: divide_nonneg_pos)
    from np_sqrt_nth[OF this] show ?thesis by simp
  qed
  define cap where
    "cap = (\<lambda>k. min (ucb_variance bs k + sqrt (2 * L / row_total bs k)) (1 / 4))"
  have capped: "map (\<lambda>(v, r). min (v + r) (1 / 4))
        (zip (map (\<lambda>m. m - m ^ 2) (map (success_rate bs) [0..<n]))
             (map (\<lambda>k. sqrt (2 * L / row_total bs k)) [0..<n]))
      = map cap [0..<n]"
    by (intro nth_equalityI) (simp_all add: cap_def ucb_variance_def)
  have cap0: "0 \<le> cap k" if "k < n" for k
  proof -
    have "0 \<le> ucb_variance bs k" using ucb_variance_nonneg[OF ok] that by (simp add: n_def)
    moreover have "0 \<le> sqrt (2 * L / row_total bs k)"
      using L0 pos[OF that] by simp
    ultimately show ?thesis by (simp add: cap_def)
  qed
  have radicand: "np_divide (map (\<lambda>c. c * L) (map cap [0..<n])) (sum_axis1 bs)
      = Inr (map (\<lambda>k. cap k * L / row_total bs k) [0..<n])"
    by (simp add: np_divide_nth[OF nz] n_def sum_axis1_nth)
  have bonus: "np_sqrt (map (\<lambda>k. cap k * L / row_total bs k) [0..<n])
      = Inr (map (ucb_bonus bs) [0..<n])"
  proof -
    have "\<forall>x \<in> set (map (\<lambda>k. cap k * L / row_total bs k) [0..<n]). 0 \<le> x"
      using L0 pos cap0 by (auto intro!: divide_nonneg_pos mult_nonneg_nonneg)
    from np_sqrt_nth[OF this] show ?thesis
      by (simp add: ucb_bonus_def cap_def L_def)
  qed
  have final: "map (\<lambda>(m, b). m + b) (zip (map (success_rate bs) [0..<n]) (map (ucb_bonus bs) [0..<n]))
      = map (ucb_score bs) [0..<n]"
    by (intro nth_equalityI) (simp_all add: ucb_score_def)
  have "UCB_scores bs = Inr (map (ucb_score bs) [0..<n])"
    unfolding UCB_scores_def Let_def
    by (simp only: means logt ratio inner capped radicand bonus final bind_err.simps)
  then show ?thesis by (simp only: n_def)
qed



lemma advance_simps [simp]:
  "calls (advance g) = Suc (calls g)"
  "rand_out (advance g) = rand_out g"
  "randint_out (advance g) = randint_out g"
  "rbeta_out (advance g) = rbeta_out g"
  by (simp_all add: advance_def)

lemma rng_ok_advance [simp]: "rng_ok (advance g) = rng_ok g"
  by (simp add: rng_ok_def)

lemma rng_ok_randint: "rng_ok g \<Longrightarrow> 0 < n \<Longrightarrow> randint_out g c n < n"
  by (simp add: rng_ok_def)

lemma randint_in_range:
  "0 < n \<Longrightarrow> np_random_randint 0 n g = Inr (randint_out g (calls g) n, advance g)"
  by (simp add: np_random_randint_def)

lemma resample_only_if:
  assumes "resample n best other g = Some r"
  shows "other \<noteq> best \<or> n = 0 \<or> (\<exists>m. randint_out g (calls g + m) n \<noteq> best)"
proof (rule resample.raw_induct[where
      P = "\<lambda>n best other g r. other \<noteq> best \<or> n = 0 \<or> (\<exists>m. randint_out g (calls g + m) n \<noteq> best)",
      OF _ assms])
  fix loop :: "nat \<Rightarrow> nat \<Rightarrow> nat \<Rightarrow> rng \<Rightarrow> choice" and n best other g r
  assume IH: "\<And>n best other g r. loop n best other g = Some r \<Longrightarrow>
      other \<noteq> best \<or> n = 0 \<or> (\<exists>m. randint_out g (calls g + m) n \<noteq> best)"
    and body: "(if other = best
         then case np_random_randint 0 n g of Inl e \<Rightarrow> Some (Inl e)
              | Inr (other_choice', g') \<Rightarrow> loop n best other_choice' g'
         else Some (Inr (other, g))) = Some r"
  show "other \<noteq> best \<or> n = 0 \<or> (\<exists>m. randint_out g (calls g + m) n \<noteq> best)"
  proof (cases "other = best \<and> 0 < n")
    case True
    with body have "loop n best (randint_out g (calls g) n) (advance g) = Some r"
      by (simp add: randint_in_range)
    from IH[OF this] True
    consider "randint_out g (calls g) n \<noteq> best"
      | m where "randint_out g (Suc (calls g) + m) n \<noteq> best"
      by auto
    then have "\<exists>m. randint_out g (calls g + m) n \<noteq> best"
    proof cases
      case 1
      then have "randint_out g (calls g + 0) n \<noteq> best" by simp
      then show ?thesis by blast
    next
      case 2
      then have "randint_out g (calls g + Suc m) n \<noteq> best" by simp
      then show ?thesis by blast
    qed
    then show ?thesis by blast
  next
    case False
    then show ?thesis by auto
  qed
qed

lemma resample_if:
  assumes "0 < n"
  shows "randint_out g (calls g + m) n \<noteq> best \<Longrightarrow>
         \<exists>k g'. resample n best other g = Some (Inr (k, g')) \<and> k \<noteq> best"
proof (induction m arbitrary: g other)
  case 0
  show ?case
  proof (cases "other = best")
    case True
    have "resample n best (randint_out g (calls g) n) (advance g)
        = Some (Inr (randint_out g (calls g) n, advance g))"
      using 0 by (subst resample.simps) simp
    with True 0 show ?thesis
      by (subst resample.simps) (simp add: randint_in_range[OF assms])
  next
    case False
    then show ?thesis by (subst resample.simps) simp
  qed
next
  case (Suc m)
  show ?case
  proof (cases "other = best")
    case True
    from Suc.prems have "randint_out (advance g) (calls (advance g) + m) n \<noteq> best" by simp
    from Suc.IH[OF this, of "randint_out g (calls g) n"] True show ?thesis
      by (subst resample.simps) (simp add: randint_in_range[OF assms])
  next
    case False
    then show ?thesis by (subst resample.simps) simp
  qed
qed

lemma resample_result:
  assumes "resample n best other g = Some r" and "0 < n" and "other < n" and "rng_ok g"
  shows "\<exists>k g'. r = Inr (k, g') \<and> k < n \<and> k \<noteq> best"
proof -
  have "0 < n \<longrightarrow> other < n \<longrightarrow> rng_ok g \<longrightarrow> (\<exists>k g'. r = Inr (k, g') \<and> k < n \<and> k \<noteq> best)"
  proof (rule resample.raw_induct[where
        P = "\<lambda>n best other g r. 0 < n \<longrightarrow> other < n \<longrightarrow> rng_ok g \<longrightarrow>
               (\<exists>k g'. r = Inr (k, g') \<and> k < n \<and> k \<noteq> best)",
        OF _ assms(1)])
    fix loop :: "nat \<Rightarrow> nat \<Rightarrow> nat \<Rightarrow> rng \<Rightarrow> choice" and n best other g r
    assume IH: "\<And>n best other g r. loop n best other g = Some r \<Longrightarrow>
        0 < n \<longrightarrow> other < n \<longrightarrow> rng_ok g \<longrightarrow> (\<exists>k g'. r = Inr (k, g') \<and> k < n \<and> k \<noteq> best)"
      and body: "(if other = best
           then case np_random_randint 0 n g of Inl e \<Rightarrow> Some (Inl e)
                | Inr (other_choice', g') \<Rightarrow> loop n best other_choice' g'
           else Some (Inr (other, g))) = Some r"
    show "0 < n \<longrightarrow> other < n \<longrightarrow> rng_ok g \<longrightarrow> (\<exists>k g'. r = Inr (k, g') \<and> k < n \<and> k \<noteq> best)"
    proof (intro impI)
      assume n: "0 < n" and o: "other < n" and g: "rng_ok g"
      show "\<exists>k g'. r = Inr (k, g') \<and> k < n \<and> k \<noteq> best"
      proof (cases "other = best")
        case True
        with body n have "loop n best (randint_out g (calls g) n) (advance g) = Some r"
          by (simp add: randint_in_range)
        moreover have "randint_out g (calls g) n < n" using g n by (simp add: rng_ok_def)
        ultimately show ?thesis using IH n g by simp
      next
        case False
        with body o show ?thesis by auto
      qed
    qed
  qed
  with assms show ?thesis by blast
qed

lemma at_least_prior_nonzero:
  "at_least_prior bs \<Longrightarrow> \<forall>k < length bs. row_total bs k \<noteq> 0"
  using at_least_prior_total by fastforce

lemma best_rate_unique: "best_rate bs k \<Longrightarrow> best_rate bs k' \<Longrightarrow> k = k'"
  unfolding best_rate_def by (metis linorder_neqE_nat not_less)

lemma epsilon_greedy_exploit:
  assumes "best_mean_arm bs = Inr b" and "\<not> rand_out g (calls g) 0 < eps"
  shows "epsilon_greedy_with eps bs g = Some (Inr (b, advance g))"
  using assms by (simp add: epsilon_greedy_with_def np_random_rand_def)

lemma epsilon_greedy_explore:
  assumes "best_mean_arm bs = Inr b" and "rand_out g (calls g) 0 < eps" and "bs \<noteq> []"
  shows "epsilon_greedy_with eps bs g =
         resample (length bs) b (randint_out g (Suc (calls g)) (length bs)) (advance (advance g))"
  using assms by (simp add: epsilon_greedy_with_def np_random_rand_def randint_in_range)

lemma epsilon_greedy_best:
  assumes "bs \<noteq> []" and "at_least_prior bs"
  obtains b where "best_mean_arm bs = Inr b" and "best_rate bs b"
  using best_mean_arm_best_rate[OF assms(1) at_least_prior_nonzero[OF assms(2)]] by blast

lemma epsilon_greedy_explore_iff:
  assumes "bs \<noteq> []" and "best_mean_arm bs = Inr b" and "rand_out g (calls g) 0 < eps"
  shows "epsilon_greedy_with eps bs g \<noteq> None \<longleftrightarrow>
         (\<exists>m. randint_out g (Suc (calls g) + m) (length bs) \<noteq> b)"
proof
  let ?K = "length bs"
  let ?o = "randint_out g (Suc (calls g)) ?K"
  let ?g = "advance (advance g)"
  have K: "0 < ?K" using assms(1) by simp
  have eq: "epsilon_greedy_with eps bs g = resample ?K b ?o ?g"
    by (rule epsilon_greedy_explore[OF assms(2,3,1)])
  {
    assume "epsilon_greedy_with eps bs g \<noteq> None"
    then obtain r where "resample ?K b ?o ?g = Some r" using eq by auto
    from resample_only_if[OF this] K
    consider "?o \<noteq> b" | m where "randint_out ?g (calls ?g + m) ?K \<noteq> b" by auto
    then show "\<exists>m. randint_out g (Suc (calls g) + m) ?K \<noteq> b"
    proof cases
      case 1
      then have "randint_out g (Suc (calls g) + 0) ?K \<noteq> b" by simp
      then show ?thesis by blast
    next
      case 2
      then have "randint_out g (Suc (calls g) + Suc m) ?K \<noteq> b" by simp
      then show ?thesis by blast
    qed
  }
  {
    assume "\<exists>m. randint_out g (Suc (calls g) + m) ?K \<noteq> b"
    then obtain m where m: "randint_out g (Suc (calls g) + m) ?K \<noteq> b" by blast
    show "epsilon_greedy_with eps bs g \<noteq> None"
    proof (cases m)
      case 0
      with m have "?o \<noteq> b" by simp
      then have "resample ?K b ?o ?g = Some (Inr (?o, ?g))"
        by (subst resample.simps) simp
      with eq show ?thesis by simp
    next
      case (Suc m')
      with m have "randint_out ?g (calls ?g + m') ?K \<noteq> b" by simp
      from resample_if[OF K this, of ?o] eq show ?thesis by auto
    qed
  }
qed

lemma rng_ok_eager: "rng_ok eager"
  by (simp add: rng_ok_def eager_def)

lemma prior_belief_eq: "prior_belief K = replicate K (1, 1)"
  by (simp add: prior_belief_def)

lemma at_least_prior_prior: "at_least_prior (prior_belief K)"
  by (simp add: prior_belief_eq at_least_prior_def)

lemma increment_at_least_prior:
  assumes "increment bs a c = Inr bs'" and "at_least_prior bs"
  shows "at_least_prior bs'"
  using assms
  by (auto simp: increment_def at_least_prior_def nth_list_update case_prod_beta
      split: if_splits)

lemma increment_length: "increment bs a c = Inr bs' \<Longrightarrow> length bs' = length bs"
  by (auto simp: increment_def split: if_splits)

lemma incremented_invariant:
  "incremented_from_prior K bs \<Longrightarrow> length bs = K \<and> at_least_prior bs"
proof (induction rule: incremented_from_prior.induct)
  case start
  show ?case by (simp add: at_least_prior_prior) (simp add: prior_belief_eq)
next
  case (step bs a c bs')
  then show ?case by (simp add: increment_at_least_prior increment_length)
qed

lemma UCB_bernoulli_scores_closed_form:
  assumes ok: "at_least_prior bs"
  shows "UCB_bernoulli_scores bs = Inr (map (bernoulli_score bs) [0..<length bs])"
proof -
  define n where "n = length bs"
  have pos: "\<And>k. k < n \<Longrightarrow> 0 < row_total bs k"
    using at_least_prior_total[OF ok] by (fastforce simp: n_def)
  have nz: "\<forall>y \<in> set (sum_axis1 bs). y \<noteq> 0" by (rule totals_nonzero[OF ok])
  have means: "np_divide (column0 bs) (sum_axis1 bs) = Inr (map (success_rate bs) [0..<n])"
    unfolding n_def by (rule means_closed_form) (use pos in \<open>fastforce simp: n_def\<close>)
  have vars: "map (\<lambda>m. m - m ^ 2) (map (success_rate bs) [0..<n]) = map (ucb_variance bs) [0..<n]"
    by (simp add: ucb_variance_def)
  have ratio: "np_divide (map (ucb_variance bs) [0..<n]) (sum_axis1 bs)
      = Inr (map (\<lambda>k. ucb_variance bs k / row_total bs k) [0..<n])"
    by (simp add: np_divide_nth[OF nz] n_def sum_axis1_nth)
  have root: "np_sqrt (map (\<lambda>k. ucb_variance bs k / row_total bs k) [0..<n])
      = Inr (map (\<lambda>k. sqrt (ucb_variance bs k / row_total bs k)) [0..<n])"
  proof -
    have "\<forall>x \<in> set (map (\<lambda>k. ucb_variance bs k / row_total bs k) [0..<n]). 0 \<le> x"
      using pos ucb_variance_nonneg[OF ok] by (auto simp: n_def intro!: divide_nonneg_pos)
    from np_sqrt_nth[OF this] show ?thesis by simp
  qed
  have final: "map (\<lambda>(m, r). m + 196 / 100 * r)
        (zip (map (success_rate bs) [0..<n])
             (map (\<lambda>k. sqrt (ucb_variance bs k / row_total bs k)) [0..<n]))
      = map (bernoulli_score bs) [0..<n]"
    by (intro nth_equalityI) (simp_all add: bernoulli_score_def)
  have "UCB_bernoulli_scores bs = Inr (map (bernoulli_score bs) [0..<n])"
    unfolding UCB_bernoulli_scores_def Let_def
    by (simp only: means vars ratio root final bind_err.simps)
  then show ?thesis by (simp only: n_def)
qed

lemma UCB_bernoulli_choice_in_range:
  assumes "bs \<noteq> []" and "at_least_prior bs"
  shows "\<exists>k. UCB_bernoulli_choice bs = Inr k \<and> k < length bs"
proof -
  have "map (bernoulli_score bs) [0..<length bs] \<noteq> []" using assms(1) by simp
  from np_argmax_first_max[OF this] show ?thesis
    by (auto simp: UCB_bernoulli_choice_def UCB_bernoulli_scores_closed_form[OF assms(2)]
        first_max_def)
qed

lemma UCB_choice_in_range:
  assumes "bs \<noteq> []" and "at_least_prior bs"
  shows "\<exists>k. UCB_choice bs = Inr k \<and> k < length bs"
proof -
  have "map (ucb_score bs) [0..<length bs] \<noteq> []" using assms(1) by simp
  from np_argmax_first_max[OF this] show ?thesis
    by (auto simp: UCB_choice_def UCB_scores_closed_form[OF assms(2,1)] first_max_def)
qed

lemma naive_choice_in_range:
  assumes "bs \<noteq> []" and "at_least_prior bs"
  shows "\<exists>k. naive_choice bs b = Inr k \<and> k < length bs"
proof (cases "\<exists>k < length bs. row_total bs k < b")
  case True
  from naive_choice_explore[OF assms(1) True] show ?thesis
    by (auto simp: least_pulled_def)
next
  case False
  then have "\<not> list_ex (\<lambda>t. t < b) (sum_axis1 bs)" by (simp add: list_ex_totals)
  with best_mean_arm_best_rate[OF assms(1) at_least_prior_nonzero[OF assms(2)]]
  show ?thesis
    by (auto simp: naive_choice_def best_mean_arm_def Let_def best_rate_def)
qed

lemma best_mean_arm_in_range:
  assumes "bs \<noteq> []" and "at_least_prior bs"
  shows "\<exists>k. best_mean_arm bs = Inr k \<and> k < length bs"
  using best_mean_arm_best_rate[OF assms(1) at_least_prior_nonzero[OF assms(2)]]
  by (auto simp: best_rate_def)

lemma random_in_range:
  assumes "bs \<noteq> []" and "rng_ok g"
  shows "\<exists>k g'. random bs g = Some (Inr (k, g')) \<and> k < length bs"
  using assms by (simp add: random_def randint_in_range rng_ok_randint)

lemma thompson_sampling_in_range:
  assumes "bs \<noteq> []"
  shows "\<exists>k g'. thompson_sampling bs g = Some (Inr (k, g')) \<and> k < length bs"
proof -
  obtain samples g' where s: "pm_rbeta (column0 bs) (column1 bs) g = (samples, g')"
    by (cases "pm_rbeta (column0 bs) (column1 bs) g")
  then have len: "length samples = length bs"
    by (auto simp: pm_rbeta_def column0_def column1_def)
  with assms have "samples \<noteq> []" by auto
  from np_argmax_first_max[OF this] len s show ?thesis
    by (auto simp: thompson_sampling_def first_max_def)
qed

lemma example_incremented: "incremented_from_prior 2 [(2, 1), (1, 2)]"
proof -
  have p: "prior_belief 2 = [(1, 1), (1, 1)]"
    by (simp add: prior_belief_eq numeral_2_eq_2)
  have "incremented_from_prior 2 [(1, 1), (1, 1)]"
    using incremented_from_prior.start[of 2] by (simp only: p)
  moreover have "increment [(1, 1), (1, 1)] 0 0 = Inr [(2, 1), (1, 1)]"
    by (simp add: increment_def)
  ultimately have "incremented_from_prior 2 [(2, 1), (1, 1)]"
    by (rule incremented_from_prior.step)
  moreover have "increment [(2, 1), (1, 1)] 1 1 = Inr [(2, 1), (1, 2)]"
    by (simp add: increment_def)
  ultimately show ?thesis by (rule incremented_from_prior.step)
qed

lemma rng_ok_stuck: "rng_ok stuck"
  by (simp add: rng_ok_def stuck_def)

lemma for_each_append:
  "for_each body (xs @ ys) st = then_do (for_each body xs st) (for_each body ys)"
  by (induction xs arbitrary: st) (auto simp: then_do_def split: option.splits sum.splits)

lemma for_each_Suc:
  "for_each body [0..<Suc n] st = then_do (for_each body [0..<n] st) (body n)"
proof -
  have "for_each body [n] s = body n s" for s
    by (auto split: option.splits sum.splits)
  then have "for_each body [n] = body n" by (rule ext)
  then show ?thesis by (simp add: for_each_append)
qed

lemma then_do_Inr:
  "then_do m f = Some (Inr y) \<longleftrightarrow> (\<exists>x. m = Some (Inr x) \<and> f x = Some (Inr y))"
  by (auto simp: then_do_def split: option.splits sum.splits)

lemma bind_err_Inr: "bind_err m f = Inr y \<longleftrightarrow> (\<exists>x. m = Inr x \<and> f x = Inr y)"
  by (cases m) auto

lemma one_round_Inr:
  assumes "one_round tr C cf distri best i st = Some (Inr st')"
  obtains a g' r bs' x y where
    "cf (estimated_beta_params st) (source st) = Some (Inr (a, g'))"
    "index2 tr i a = Inr r"
    "increment (estimated_beta_params st) a (if r then 0 else 1) = Inr bs'"
    "index2 tr i best = Inr y"
    "st' = st\<lparr>estimated_beta_params := bs',
              regret := (regret st)[i := x],
              god_regret := (god_regret st)[i := god_signal y r],
              source := g',
              pulls := pulls st @ [a]\<rparr>"
  using assms
  by (auto simp: one_round_def bind_err_Inr Let_def split: option.splits sum.splits prod.splits)

lemma index2_Inr: "index2 m i j = Inr x \<longleftrightarrow> i < length m \<and> j < length (m ! i) \<and> x = m ! i ! j"
  by (auto simp: index2_def)

lemma increment_Inr:
  "increment bs a c = Inr bs' \<longleftrightarrow>
     a < length bs \<and> c < 2 \<and>
     bs' = bs[a := (if c = 0 then (fst (bs ! a) + 1, snd (bs ! a))
                    else (fst (bs ! a), snd (bs ! a) + 1))]"
  by (auto simp: increment_def case_prod_beta)

lemma episode_inv_initial: "episode_inv tr best 0 (initial_episode tr g)"
  by (simp add: episode_inv_def initial_episode_def shape_def prior_belief_eq
      at_least_prior_def row_total_def split: list.splits)

lemma episode_inv_step:
  assumes inv: "episode_inv tr best n st"
    and step: "one_round tr C cf distri best n st = Some (Inr st')"
  shows "episode_inv tr best (Suc n) st'"
proof -
  let ?bs = "estimated_beta_params st"
  from step obtain a g' r bs' x y where
    inc: "increment ?bs a (if r then 0 else 1) = Inr bs'"
    and ia: "index2 tr n a = Inr r" and ib: "index2 tr n best = Inr y"
    and st': "st' = st\<lparr>estimated_beta_params := bs', regret := (regret st)[n := x],
              god_regret := (god_regret st)[n := god_signal y r], source := g',
              pulls := pulls st @ [a]\<rparr>"
    by (rule one_round_Inr)
  from ia have n: "n < length tr" and r: "r = tr ! n ! a" by (simp_all add: index2_Inr)
  from ib have y: "y = tr ! n ! best" by (simp add: index2_Inr)
  from inc have a: "a < length ?bs" and len: "length bs' = length ?bs"
    by (simp_all add: increment_Inr)
  from inv have lp: "length (pulls st) = n" and lg: "length (god_regret st) = length tr"
    and lb: "length ?bs = snd (shape tr)" and ok: "at_least_prior ?bs"
    and tot: "\<forall>k < length ?bs. row_total ?bs k = real (count_list (pulls st) k) + 2"
    and old: "\<forall>i < n. pulls st ! i < length ?bs \<and>
        god_regret st ! i = god_signal (tr ! i ! best) (tr ! i ! (pulls st ! i))"
    unfolding episode_inv_def by blast+
  have ok': "at_least_prior bs'" by (rule increment_at_least_prior[OF inc ok])
  have tot': "row_total bs' k = real (count_list (pulls st @ [a]) k) + 2" if "k < length bs'" for k
  proof -
    from that len have k: "k < length ?bs" by simp
    show ?thesis
      using inc tot k a
      by (auto simp: increment_Inr row_total_def nth_list_update split: if_splits)
  qed
  have new: "(pulls st @ [a]) ! i < length bs' \<and>
      (god_regret st)[n := god_signal y r] ! i =
        god_signal (tr ! i ! best) (tr ! i ! ((pulls st @ [a]) ! i))" if "i < Suc n" for i
  proof (cases "i = n")
    case True
    with a len lp lg n r y show ?thesis by (simp add: nth_append)
  next
    case False
    with that have "i < n" by simp
    with old lp len show ?thesis by (simp add: nth_append)
  qed
  show ?thesis
    unfolding episode_inv_def st'
    using n lp lg lb len ok' tot' new by simp
qed

lemma rounds_invariant:
  "for_each (one_round tr C cf distri best) [0..<n] (initial_episode tr g) = Some (Inr st) \<Longrightarrow>
   episode_inv tr best n st"
proof (induction n arbitrary: st)
  case 0
  then have "st = initial_episode tr g" by simp
  then show ?case by (simp only: episode_inv_initial)
next
  case (Suc n)
  from Suc.prems obtain st0 where
    "for_each (one_round tr C cf distri best) [0..<n] (initial_episode tr g) = Some (Inr st0)"
    and "one_round tr C cf distri best n st0 = Some (Inr st)"
    unfolding for_each_Suc then_do_Inr by blast
  with Suc.IH show ?case by (blast intro: episode_inv_step)
qed

lemma run_rounds_Inr:
  assumes "run_rounds tr C cf n g = Some (Inr st)"
  obtains distri best where "np_max_axis0 C = Inr distri" and "np_argmax distri = Inr best"
    and "for_each (one_round tr C cf distri best) [0..<n] (initial_episode tr g) = Some (Inr st)"
  using assms by (auto simp: run_rounds_def split: sum.splits)

lemma run_rounds_Suc:
  assumes "run_rounds tr C cf (Suc n) g = Some (Inr st')"
  obtains st distri best where "run_rounds tr C cf n g = Some (Inr st)"
    and "np_max_axis0 C = Inr distri" and "np_argmax distri = Inr best"
    and "one_round tr C cf distri best n st = Some (Inr st')"
proof -
  from assms obtain distri best where d: "np_max_axis0 C = Inr distri" and b: "np_argmax distri = Inr best"
    and f: "for_each (one_round tr C cf distri best) [0..<Suc n] (initial_episode tr g) = Some (Inr st')"
    by (rule run_rounds_Inr)
  from f obtain st where
    f0: "for_each (one_round tr C cf distri best) [0..<n] (initial_episode tr g) = Some (Inr st)"
    and s: "one_round tr C cf distri best n st = Some (Inr st')"
    unfolding for_each_Suc then_do_Inr by blast
  from d b f0 have "run_rounds tr C cf n g = Some (Inr st)" by (simp add: run_rounds_def)
  with d b s that show ?thesis by blast
qed

lemmas example_unfold =
  run_rounds_def np_max_axis0_def np_argmax_def one_round_def initial_episode_def shape_def
  prior_belief_def naive_def naive_choice_def sum_axis1_def column0_def np_argmin_def
  np_divide_def index2_def index1_def increment_def god_signal_def example_rewards_def
  example_CTRs_def

lemma example_run_1: "run_rounds example_rewards example_CTRs naive 1 quiet = Some (Inr after_round_0)"
  by (simp add: example_unfold after_round_0_def)

lemma example_run_2: "run_rounds example_rewards example_CTRs naive 2 quiet = Some (Inr after_round_1)"
  by (simp add: example_unfold after_round_1_def numeral_2_eq_2)

lemma length_cumsum_from [simp]: "length (cumsum_from a xs) = length xs"
  by (induction xs arbitrary: a) simp_all

lemma cumsum_from_nth:
  "i < length xs \<Longrightarrow> cumsum_from a xs ! i = a + (\<Sum>j\<le>i. xs ! j)"
proof (induction xs arbitrary: a i)
  case Nil
  then show ?case by simp
next
  case (Cons x xs)
  show ?case
  proof (cases i)
    case 0
    then show ?thesis by simp
  next
    case (Suc i')
    with Cons.prems have "i' < length xs" by simp
    have "(\<Sum>j\<le>Suc i'. (x # xs) ! j) = x + (\<Sum>j\<le>i'. xs ! j)"
      by (simp add: sum.atMost_Suc_shift del: sum.atMost_Suc)
    with Cons.IH[OF \<open>i' < length xs\<close>, of "a + x"] Suc show ?thesis
      by simp
  qed
qed

lemma np_cumsum_nth: "i < length xs \<Longrightarrow> np_cumsum xs ! i = (\<Sum>j\<le>i. xs ! j)"
  by (simp add: np_cumsum_def cumsum_from_nth)

lemma run_bandit_Inr:
  assumes "run_bandit_dynamic_alg tr C cf g = Some (Inr (res, g'))"
  obtains st where "run_rounds tr C cf (length tr) g = Some (Inr st)"
    and "res = np_cumsum (god_regret st)" and "g' = source st"
  using assms
  by (auto simp: run_bandit_dynamic_alg_def shape_def Let_def split: option.splits sum.splits)

lemma np_argmax_Inr: "np_argmax xs = Inr k \<Longrightarrow> first_max xs k"
proof -
  assume a: "np_argmax xs = Inr k"
  then have "xs \<noteq> []" by (auto simp: np_argmax_def)
  from np_argmax_first_max[OF this] a show ?thesis by auto
qed

lemma example_returned:
  "run_bandit_dynamic_alg example_rewards example_CTRs naive quiet = Some (Inr ([0, - 1], quiet))"
proof -
  have "length example_rewards = 2" by (simp add: example_rewards_def)
  then show ?thesis
    by (simp add: run_bandit_dynamic_alg_def shape_def example_run_2 after_round_1_def
        np_cumsum_def)
qed

lemma same_draws_now:
  assumes "same_draws g1 g2"
  shows "rand_out g1 (calls g1) = rand_out g2 (calls g2)"
    and "randint_out g1 (calls g1) = randint_out g2 (calls g2)"
    and "rbeta_out g1 (calls g1) = rbeta_out g2 (calls g2)"
  using assms[unfolded same_draws_def, rule_format, of 0] by simp_all

lemma same_draws_later:
  assumes "same_draws g1 g2"
  shows "randint_out g1 (calls g1 + m) = randint_out g2 (calls g2 + m)"
  using assms[unfolded same_draws_def, rule_format, of m] by simp

lemma same_draws_advance:
  assumes "same_draws g1 g2"
  shows "same_draws (advance g1) (advance g2)"
  unfolding same_draws_def
proof (intro allI)
  fix m
  from assms[unfolded same_draws_def, rule_format, of "Suc m"]
  show "rand_out (advance g1) (calls (advance g1) + m) = rand_out (advance g2) (calls (advance g2) + m) \<and>
        randint_out (advance g1) (calls (advance g1) + m) = randint_out (advance g2) (calls (advance g2) + m) \<and>
        rbeta_out (advance g1) (calls (advance g1) + m) = rbeta_out (advance g2) (calls (advance g2) + m)"
    by simp
qed

lemma same_outcome_simps [simp]:
  "same_outcome R None y \<longleftrightarrow> y = None"
  "same_outcome R x None \<longleftrightarrow> x = None"
  "same_outcome R (Some (Inl e)) y \<longleftrightarrow> y = Some (Inl e)"
  "same_outcome R x (Some (Inl e)) \<longleftrightarrow> x = Some (Inl e)"
  "same_outcome R (Some (Inr a)) (Some (Inr b)) \<longleftrightarrow> R a b"
  unfolding same_outcome_def
  by (auto simp: option_rel_Some1 option_rel_Some2 elim: rel_sum.cases)

lemma same_outcome_pure:
  "same_outcome (\<lambda>(a, h1) (b, h2). a = b \<and> same_draws h1 h2)
     (Some (bind_err m (\<lambda>a. Inr (a, g1)))) (Some (bind_err m (\<lambda>a. Inr (a, g2))))
   \<longleftrightarrow> (\<forall>a. m = Inr a \<longrightarrow> same_draws g1 g2)"
  by (cases m) auto

lemma resample_stop: "other \<noteq> best \<Longrightarrow> resample n best other g = Some (Inr (other, g))"
  by (subst resample.simps) simp

lemma resample_again:
  "0 < n \<Longrightarrow> resample n best best g = resample n best (randint_out g (calls g) n) (advance g)"
  by (subst resample.simps) (simp add: randint_in_range)

lemma resample_empty: "resample 0 best best g = Some (Inl ValueError)"
  by (subst resample.simps) (simp add: np_random_randint_def)

lemma resample_same_if:
  assumes n: "0 < n"
  shows "same_draws g1 g2 \<Longrightarrow> randint_out g1 (calls g1 + m) n \<noteq> best \<Longrightarrow>
         same_outcome (\<lambda>(a, h1) (b, h2). a = b \<and> same_draws h1 h2)
           (resample n best other g1) (resample n best other g2)"
proof (induction m arbitrary: g1 g2 other)
  case 0
  show ?case
  proof (cases "other = best")
    case True
    from 0 have d: "randint_out g1 (calls g1) n \<noteq> best" by simp
    moreover have e: "randint_out g2 (calls g2) n = randint_out g1 (calls g1) n"
      using same_draws_now(2)[OF 0(1)] by simp
    ultimately show ?thesis
      using True same_draws_advance[OF 0(1)]
      by (simp add: resample_again[OF n] resample_stop)
  next
    case False
    with 0(1) show ?thesis by (simp add: resample_stop)
  qed
next
  case (Suc m)
  show ?case
  proof (cases "other = best")
    case True
    have e: "randint_out g2 (calls g2) n = randint_out g1 (calls g1) n"
      using same_draws_now(2)[OF Suc.prems(1)] by simp
    from Suc.prems(2) have "randint_out (advance g1) (calls (advance g1) + m) n \<noteq> best" by simp
    from Suc.IH[OF same_draws_advance[OF Suc.prems(1)] this, of "randint_out g1 (calls g1) n"]
    show ?thesis using True by (simp add: resample_again[OF n] e)
  next
    case False
    with Suc.prems(1) show ?thesis by (simp add: resample_stop)
  qed
qed

lemma resample_same:
  assumes "same_draws g1 g2"
  shows "same_outcome (\<lambda>(a, h1) (b, h2). a = b \<and> same_draws h1 h2)
           (resample n best other g1) (resample n best other g2)"
proof (cases "other \<noteq> best \<or> n = 0")
  case True
  show ?thesis
  proof (cases "other = best")
    case True
    with \<open>other \<noteq> best \<or> n = 0\<close> show ?thesis by (simp add: resample_empty)
  next
    case False
    with assms show ?thesis by (simp add: resample_stop)
  qed
next
  case False
  then have o: "other = best" and n: "0 < n" by simp_all
  show ?thesis
  proof (cases "\<exists>m. randint_out g1 (calls g1 + m) n \<noteq> best")
    case True
    then obtain m where "randint_out g1 (calls g1 + m) n \<noteq> best" by blast
    from resample_same_if[OF n assms this] show ?thesis .
  next
    case False
    then have a1: "\<forall>m. randint_out g1 (calls g1 + m) n = best" by simp
    then have a2: "\<forall>m. randint_out g2 (calls g2 + m) n = best"
      using same_draws_later[OF assms] by metis
    have "resample n best other g1 = None"
      using resample_only_if[of n best other g1] a1 o n by (cases "resample n best other g1") auto
    moreover have "resample n best other g2 = None"
      using resample_only_if[of n best other g2] a2 o n by (cases "resample n best other g2") auto
    ultimately show ?thesis by simp
  qed
qed

lemma policies_same:
  assumes "same_draws g1 g2" and "choice_func \<in> set six_policies"
  shows "same_outcome (\<lambda>(a, h1) (b, h2). a = b \<and> same_draws h1 h2)
           (choice_func bs g1) (choice_func bs g2)"
proof -
  note adv = same_draws_advance[OF assms(1)]
  note now = same_draws_now[OF assms(1)]
  have r: "same_outcome (\<lambda>(a, h1) (b, h2). a = b \<and> same_draws h1 h2) (random bs g1) (random bs g2)"
    using adv now by (simp add: random_def np_random_randint_def)
  have n: "same_outcome (\<lambda>(a, h1) (b, h2). a = b \<and> same_draws h1 h2) (naive bs g1) (naive bs g2)"
    unfolding naive_def same_outcome_pure using assms(1) by simp
  have u: "same_outcome (\<lambda>(a, h1) (b, h2). a = b \<and> same_draws h1 h2) (UCB bs g1) (UCB bs g2)"
    unfolding UCB_def same_outcome_pure using assms(1) by simp
  have ub: "same_outcome (\<lambda>(a, h1) (b, h2). a = b \<and> same_draws h1 h2)
      (UCB_bernoulli bs g1) (UCB_bernoulli bs g2)"
    unfolding UCB_bernoulli_def same_outcome_pure using assms(1) by simp
  have t: "same_outcome (\<lambda>(a, h1) (b, h2). a = b \<and> same_draws h1 h2)
      (thompson_sampling bs g1) (thompson_sampling bs g2)"
    unfolding thompson_sampling_def pm_rbeta_def now(3) prod.case same_outcome_pure
    using adv by simp
  have e: "same_outcome (\<lambda>(a, h1) (b, h2). a = b \<and> same_draws h1 h2)
      (epsilon_greedy bs g1) (epsilon_greedy bs g2)"
  proof (cases "best_mean_arm bs")
    case (Inl err)
    then show ?thesis by (simp add: epsilon_greedy_def epsilon_greedy_with_def)
  next
    case (Inr b)
    show ?thesis
    proof (cases "rand_out g1 (calls g1) 0 < 1 / 100")
      case True
      then have True2: "rand_out g2 (calls g2) 0 < 1 / 100" using now(1) by simp
      show ?thesis
      proof (cases "bs = []")
        case True
        with Inr \<open>rand_out g1 (calls g1) 0 < 1 / 100\<close> True2 show ?thesis
          by (simp add: epsilon_greedy_def epsilon_greedy_with_def np_random_rand_def
              np_random_randint_def)
      next
        case False
        have d: "randint_out g2 (Suc (calls g2)) (length bs) = randint_out g1 (Suc (calls g1)) (length bs)"
          using same_draws_now(2)[OF adv] by simp
        from resample_same[OF same_draws_advance[OF adv]]
        show ?thesis
          unfolding epsilon_greedy_def epsilon_greedy_explore[OF Inr True False]
            epsilon_greedy_explore[OF Inr True2 False] d .
      qed
    next
      case False
      then have False2: "\<not> rand_out g2 (calls g2) 0 < 1 / 100" using now(1) by simp
      show ?thesis
        unfolding epsilon_greedy_def epsilon_greedy_exploit[OF Inr False]
          epsilon_greedy_exploit[OF Inr False2]
        using adv by simp
    qed
  qed
  from assms(2) r n e u ub t show ?thesis
    by (auto simp: six_policies_def)
qed

lemma one_round_same:
  assumes pol: "\<And>bs g1 g2. same_draws g1 g2 \<Longrightarrow>
      same_outcome (\<lambda>(a, h1) (b, h2). a = b \<and> same_draws h1 h2) (cf bs g1) (cf bs g2)"
    and st: "same_episode s1 s2"
  shows "same_outcome same_episode
           (one_round tr C cf distri best i s1) (one_round tr C cf distri best i s2)"
proof -
  from st have bs: "estimated_beta_params s2 = estimated_beta_params s1"
    and rg: "regret s2 = regret s1" and gr: "god_regret s2 = god_regret s1"
    and pl: "pulls s2 = pulls s1" and sd: "same_draws (source s1) (source s2)"
    by (simp_all add: same_episode_def)
  let ?bs = "estimated_beta_params s1"
  from pol[OF sd, of ?bs]
  have p: "same_outcome (\<lambda>(a, h1) (b, h2). a = b \<and> same_draws h1 h2)
      (cf ?bs (source s1)) (cf ?bs (source s2))" .
  show ?thesis
  proof (cases "cf ?bs (source s1)")
    case None
    with p show ?thesis by (simp add: one_round_def bs)
  next
    case (Some x)
    show ?thesis
    proof (cases x)
      case (Inl err)
      with Some p show ?thesis by (simp add: one_round_def bs)
    next
      case (Inr ah)
      obtain a h1 where ah: "ah = (a, h1)" by (cases ah)
      from p Some Inr ah obtain h2 where c2: "cf ?bs (source s2) = Some (Inr (a, h2))"
        and h: "same_draws h1 h2"
        by (cases "cf ?bs (source s2)") (auto simp: same_outcome_def elim!: rel_sum.cases)
      from Some Inr ah have c1: "cf ?bs (source s1) = Some (Inr (a, h1))" by simp
      show ?thesis
        unfolding one_round_def bs c1 c2 rg gr pl
        using h
        by (cases "index2 tr i a"; cases "increment ?bs a (if projr (index2 tr i a) then 0 else 1)";
            cases "index1 distri best"; cases "index2 C i a"; cases "index2 tr i best")
           (simp_all add: same_episode_def Let_def)
    qed
  qed
qed

lemma for_each_same:
  assumes body: "\<And>i s1 s2. R s1 s2 \<Longrightarrow> same_outcome R (body i s1) (body i s2)"
  shows "R s1 s2 \<Longrightarrow> same_outcome R (for_each body xs s1) (for_each body xs s2)"
proof (induction xs arbitrary: s1 s2)
  case Nil
  then show ?case by simp
next
  case (Cons i xs)
  from body[OF Cons.prems, of i]
  show ?case
  proof (cases "body i s1")
    case None
    with body[OF Cons.prems, of i] show ?thesis by simp
  next
    case (Some x)
    show ?thesis
    proof (cases x)
      case (Inl err)
      with Some body[OF Cons.prems, of i] show ?thesis by simp
    next
      case (Inr t1)
      with Some body[OF Cons.prems, of i] obtain t2 where
        "body i s2 = Some (Inr t2)" and "R t1 t2"
        by (cases "body i s2") (auto simp: same_outcome_def elim!: rel_sum.cases)
      with Some Inr Cons.IH[of t1 t2] show ?thesis by simp
    qed
  qed
qed

lemma run_rounds_same:
  assumes "same_draws g1 g2" and "choice_func \<in> set six_policies"
  shows "same_outcome same_episode
           (run_rounds tr C choice_func n g1) (run_rounds tr C choice_func n g2)"
proof (cases "np_max_axis0 C")
  case (Inl err)
  then show ?thesis by (simp add: run_rounds_def)
next
  case d: (Inr distri)
  show ?thesis
  proof (cases "np_argmax distri")
    case (Inl err)
    with d show ?thesis by (simp add: run_rounds_def)
  next
    case (Inr best)
    have init: "same_episode (initial_episode tr g1) (initial_episode tr g2)"
      using assms(1) by (simp add: same_episode_def initial_episode_def split: prod.splits)
    have "same_outcome same_episode
        (for_each (one_round tr C choice_func distri best) [0..<n] (initial_episode tr g1))
        (for_each (one_round tr C choice_func distri best) [0..<n] (initial_episode tr g2))"
      by (rule for_each_same[OF one_round_same init]) (rule policies_same[OF _ assms(2)])
    with d Inr show ?thesis by (simp add: run_rounds_def)
  qed
qed

lemma same_outcome_map:
  assumes "same_outcome R x y" and "\<And>a b. R a b \<Longrightarrow> f a = f b"
  shows "map_option (map_sum id f) x = map_option (map_sum id f) y"
proof (cases x)
  case None
  with assms(1) show ?thesis by simp
next
  case (Some u)
  show ?thesis
  proof (cases u)
    case (Inl err)
    with Some assms(1) show ?thesis by simp
  next
    case (Inr a)
    with Some assms(1) obtain b where "y = Some (Inr b)" and "R a b"
      by (cases y) (auto simp: same_outcome_def elim!: rel_sum.cases)
    with Some Inr assms(2) show ?thesis by simp
  qed
qed

lemma same_draws_eager_late: "same_draws eager late"
  by (simp add: same_draws_def eager_def late_def)

lemmas example_explore_unfold =
  run_rounds_def np_max_axis0_def np_argmax_def one_round_def initial_episode_def shape_def
  prior_belief_def epsilon_greedy_def epsilon_greedy_with_def best_mean_arm_def
  sum_axis1_def column0_def np_divide_def np_random_rand_def np_random_randint_def
  index2_def index1_def increment_def god_signal_def example_rewards_def example_CTRs_def
  resample_stop resample_again mod_Suc

lemma example_explore_pulls:
  "map_option (map_sum id pulls)
     (run_rounds example_rewards example_CTRs epsilon_greedy 2 eager) = Some (Inr [1, 1])"
  by (simp add: example_explore_unfold numeral_2_eq_2 eager_def advance_def)

lemma example_explore_returned:
  "map_option (map_sum id fst)
     (run_bandit_dynamic_alg example_rewards example_CTRs epsilon_greedy eager)
   = Some (Inr [1, 0])"
  by (simp add: run_bandit_dynamic_alg_def example_explore_unfold numeral_2_eq_2 eager_def
      advance_def np_cumsum_def)

lemma accumulate_Inr:
  assumes "accumulate tr C j cf d = Some (Inr d')"
  shows "runs d' = runs d @ [(j, C, tr)]"
  using assms by (auto simp: accumulate_def split: option.splits sum.splits)

lemma run_experiment_Inr:
  assumes "run_experiment C n K i d = Some (Inr d')"
  shows "\<exists>R. runs d' = runs d @ map (\<lambda>j. (j, C, R)) [0..<6]"
proof -
  obtain R g' where gen: "generate_bernoulli_bandit_data C n K (generator d) = (R, g')"
    by (cases "generate_bernoulli_bandit_data C n K (generator d)")
  from assms[unfolded run_experiment_def gen prod.case then_do_Inr]
  obtain d0 d1 d2 d3 d4 where
    a0: "accumulate R C 0 random (d\<lparr>generator := g'\<rparr>) = Some (Inr d0)"
    and a1: "accumulate R C 1 naive d0 = Some (Inr d1)"
    and a2: "accumulate R C 2 epsilon_greedy d1 = Some (Inr d2)"
    and a3: "accumulate R C 3 UCB d2 = Some (Inr d3)"
    and a4: "accumulate R C 4 UCB_bernoulli d3 = Some (Inr d4)"
    and a5: "accumulate R C 5 thompson_sampling d4 = Some (Inr d')"
    by blast
  have six: "[0..<6] = [0, 1, 2, 3, 4, 5 :: nat]"
    by (simp add: eval_nat_numeral)
  have "runs d' = runs d @ map (\<lambda>j. (j, C, R)) [0..<6]"
    unfolding six
    using accumulate_Inr[OF a0] accumulate_Inr[OF a1] accumulate_Inr[OF a2]
      accumulate_Inr[OF a3] accumulate_Inr[OF a4] accumulate_Inr[OF a5]
    by simp
  then show ?thesis by blast
qed

lemma experiments_runs:
  "for_each (run_experiment C n K) xs d = Some (Inr d') \<Longrightarrow>
   \<exists>rewards. length rewards = length xs \<and>
     runs d' = runs d @ concat (map (\<lambda>R. map (\<lambda>j. (j, C, R)) [0..<6]) rewards)"
proof (induction xs arbitrary: d)
  case Nil
  then have "runs d' = runs d @ concat (map (\<lambda>R. map (\<lambda>j. (j, C, R)) [0..<6]) [])" by simp
  then show ?case by (intro exI[of _ "[]"]) simp
next
  case (Cons i xs)
  from Cons.prems obtain d1 where e: "run_experiment C n K i d = Some (Inr d1)"
    and rest: "for_each (run_experiment C n K) xs d1 = Some (Inr d')"
    by (auto split: option.splits sum.splits)
  from run_experiment_Inr[OF e] obtain R where
    r1: "runs d1 = runs d @ map (\<lambda>j. (j, C, R)) [0..<6]" by blast
  from Cons.IH[OF rest] obtain rewards where len: "length rewards = length xs"
    and r2: "runs d' = runs d1 @ concat (map (\<lambda>R. map (\<lambda>j. (j, C, R)) [0..<6]) rewards)"
    by blast
  have "length (R # rewards) = length (i # xs)" using len by simp
  moreover have "runs d' = runs d @ concat (map (\<lambda>R. map (\<lambda>j. (j, C, R)) [0..<6]) (R # rewards))"
    using r1 r2 by simp
  ultimately show ?case by blast
qed

lemma one_round_episode:
  assumes "cf [(1, 1), (1, 1)] g = Some (Inr (a, g'))" and "a < 2"
  shows "run_bandit_dynamic_alg [[True, True]] [[1 / 2, 1 / 2]] cf g = Some (Inr ([0], g'))"
proof -
  from assms(2) have "a = 0 \<or> a = 1" by auto
  then show ?thesis
    using assms(1)
    by (auto simp: run_bandit_dynamic_alg_def run_rounds_def np_max_axis0_def np_argmax_def
        one_round_def initial_episode_def shape_def prior_belief_def index2_def index1_def
        increment_def god_signal_def np_cumsum_def)
qed

lemma prior_choices:
  "naive_choice [(1, 1), (1, 1)] 100 = Inr 0"
  "best_mean_arm [(1, 1), (1, 1)] = Inr 0"
  "UCB_choice [(1, 1), (1, 1)] = Inr 0"
  "UCB_bernoulli_choice [(1, 1), (1, 1)] = Inr 0"
  by (simp_all add: naive_choice_def best_mean_arm_def UCB_choice_def UCB_scores_def
      UCB_bernoulli_choice_def UCB_bernoulli_scores_def sum_all_def sum_axis1_def column0_def
      np_divide_def np_log_def np_sqrt_def np_argmin_def np_argmax_def power2_eq_square)

lemma accumulate_one_round:
  assumes "cf [(1, 1), (1, 1)] (generator d) = Some (Inr (a, g'))" and "a < 2"
    and "regret_accumulator d = [[0, 0, 0, 0, 0, 0]]" and "j < 6"
  shows "accumulate [[True, True]] [[1 / 2, 1 / 2]] j cf d =
         Some (Inr (d\<lparr>generator := g', runs := runs d @ [(j, [[1 / 2, 1 / 2]], [[True, True]])]\<rparr>))"
proof -
  have "add_column [row] j [0] = [row]" for row
    by (simp add: add_column_def)
  with assms(3) show ?thesis
    using one_round_episode[of cf "generator d" a g', OF assms(1,2)]
    by (simp add: accumulate_def)
qed

lemma counting_calls [simp]:
  "rand_out (counting\<lparr>calls := c\<rparr>) = (\<lambda>c j. 1 / (real c + 2))"
  "randint_out (counting\<lparr>calls := c\<rparr>) = (\<lambda>c n. c mod n)"
  "rbeta_out (counting\<lparr>calls := c\<rparr>) = (\<lambda>c j a b. a / (a + b))"
  "calls (counting\<lparr>calls := c\<rparr>) = c"
  "advance (counting\<lparr>calls := c\<rparr>) = counting\<lparr>calls := Suc c\<rparr>"
  by (simp_all add: counting_def advance_def)

lemma counting_experiment:
  assumes "regret_accumulator d = [[0, 0, 0, 0, 0, 0]]" and "generator d = counting\<lparr>calls := c\<rparr>"
    and "odd c" and "c < 90"
  shows "run_experiment [[1 / 2, 1 / 2]] 1 2 i d =
         Some (Inr (d\<lparr>generator := counting\<lparr>calls := c + 4\<rparr>,
                     runs := runs d @ map (\<lambda>j. (j, [[1 / 2, 1 / 2]], [[True, True]])) [0..<6]\<rparr>))"
proof -
  let ?C = "[[1 / 2, 1 / 2 :: real]]" and ?R = "[[True, True]]"
  let ?bs = "[(1, 1), (1, 1)] :: belief"
  have cpos: "0 < c" using assms(3) by (cases c) auto
  have gen: "generate_bernoulli_bandit_data ?C 1 2 (generator d) = (?R, counting\<lparr>calls := Suc c\<rparr>)"
    using cpos
    by (simp add: generate_bernoulli_bandit_data_def np_random_rand2_def assms(2)
        numeral_2_eq_2 field_simps)
  define d0 where "d0 = d\<lparr>generator := counting\<lparr>calls := Suc c\<rparr>\<rparr>"
  define d1 where "d1 = d0\<lparr>generator := counting\<lparr>calls := c + 2\<rparr>, runs := runs d0 @ [(0, ?C, ?R)]\<rparr>"
  define d2 where "d2 = d1\<lparr>runs := runs d1 @ [(1, ?C, ?R)]\<rparr>"
  define d3 where "d3 = d2\<lparr>generator := counting\<lparr>calls := c + 3\<rparr>, runs := runs d2 @ [(2, ?C, ?R)]\<rparr>"
  define d4 where "d4 = d3\<lparr>runs := runs d3 @ [(3, ?C, ?R)]\<rparr>"
  define d5 where "d5 = d4\<lparr>runs := runs d4 @ [(4, ?C, ?R)]\<rparr>"
  define d6 where "d6 = d5\<lparr>generator := counting\<lparr>calls := c + 4\<rparr>, runs := runs d5 @ [(5, ?C, ?R)]\<rparr>"
  have ev: "Suc c mod Suc (Suc 0) = 0" using assms(3) by presburger
  have a0: "accumulate ?R ?C 0 random d0 = Some (Inr d1)"
  proof -
    have "random ?bs (generator d0) = Some (Inr (0, counting\<lparr>calls := c + 2\<rparr>))"
      by (simp add: random_def np_random_randint_def d0_def ev)
    from accumulate_one_round[where cf = random and d = d0 and j = 0, OF this] assms(1) show ?thesis by (simp add: d0_def d1_def)
  qed
  have a1: "accumulate ?R ?C 1 naive d1 = Some (Inr d2)"
  proof -
    have "naive ?bs (generator d1) = Some (Inr (0, generator d1))"
      by (simp add: naive_def prior_choices)
    from accumulate_one_round[where cf = naive and d = d1 and j = 1, OF this] assms(1) show ?thesis by (simp add: d0_def d1_def d2_def)
  qed
  have a2: "accumulate ?R ?C 2 epsilon_greedy d2 = Some (Inr d3)"
  proof -
    have "\<not> 1 / (real (c + 2) + 2) < (1 :: real) / 100"
      using assms(4) by (simp add: field_simps)
    then have "epsilon_greedy ?bs (generator d2) = Some (Inr (0, counting\<lparr>calls := c + 3\<rparr>))"
      by (simp add: epsilon_greedy_def epsilon_greedy_with_def prior_choices np_random_rand_def
          d0_def d1_def d2_def)
    from accumulate_one_round[where cf = epsilon_greedy and d = d2 and j = 2, OF this] assms(1) show ?thesis
      by (simp add: d0_def d1_def d2_def d3_def)
  qed
  have a3: "accumulate ?R ?C 3 UCB d3 = Some (Inr d4)"
  proof -
    have "UCB ?bs (generator d3) = Some (Inr (0, generator d3))"
      by (simp add: UCB_def prior_choices)
    from accumulate_one_round[where cf = UCB and d = d3 and j = 3, OF this] assms(1) show ?thesis
      by (simp add: d0_def d1_def d2_def d3_def d4_def)
  qed
  have a4: "accumulate ?R ?C 4 UCB_bernoulli d4 = Some (Inr d5)"
  proof -
    have "UCB_bernoulli ?bs (generator d4) = Some (Inr (0, generator d4))"
      by (simp add: UCB_bernoulli_def prior_choices)
    from accumulate_one_round[where cf = UCB_bernoulli and d = d4 and j = 4, OF this] assms(1) show ?thesis
      by (simp add: d0_def d1_def d2_def d3_def d4_def d5_def)
  qed
  have a5: "accumulate ?R ?C 5 thompson_sampling d5 = Some (Inr d6)"
  proof -
    have "thompson_sampling ?bs (generator d5) = Some (Inr (0, counting\<lparr>calls := c + 4\<rparr>))"
      by (simp add: thompson_sampling_def pm_rbeta_def column0_def column1_def np_argmax_def
          d0_def d1_def d2_def d3_def d4_def d5_def)
    from accumulate_one_round[where cf = thompson_sampling and d = d5 and j = 5, OF this] assms(1) show ?thesis
      by (simp add: d0_def d1_def d2_def d3_def d4_def d5_def d6_def)
  qed
  have six: "[0..<6] = [0, 1, 2, 3, 4, 5 :: nat]" by (simp add: eval_nat_numeral)
  have "run_experiment ?C 1 2 i d = Some (Inr d6)"
    unfolding run_experiment_def gen prod.case
    using a0 a1 a2 a3 a4 a5 by (simp add: then_do_def d0_def)
  moreover have "d6 = d\<lparr>generator := counting\<lparr>calls := c + 4\<rparr>,
      runs := runs d @ map (\<lambda>j. (j, ?C, ?R)) [0..<6]\<rparr>"
    unfolding six by (simp add: d0_def d1_def d2_def d3_def d4_def d5_def d6_def)
  ultimately show ?thesis by simp
qed

lemma counting_simulation: "simulation 1 2 2 counting = Some (Inr counting_result)"
proof -
  let ?C = "[[1 / 2, 1 / 2 :: real]]" and ?R = "[[True, True]]"
  define d0 :: driver where "d0 = \<lparr>regret_accumulator = [[0, 0, 0, 0, 0, 0]],
      generator = counting\<lparr>calls := 1\<rparr>, runs = []\<rparr>"
  define d1 where "d1 = d0\<lparr>generator := counting\<lparr>calls := 1 + 4\<rparr>,
      runs := runs d0 @ map (\<lambda>j. (j, ?C, ?R)) [0..<6]\<rparr>"
  define d2 where "d2 = d1\<lparr>generator := counting\<lparr>calls := 5 + 4\<rparr>,
      runs := runs d1 @ map (\<lambda>j. (j, ?C, ?R)) [0..<6]\<rparr>"
  have start: "CTRs_that_generated_data 1 2 counting = (?C, counting\<lparr>calls := 1\<rparr>)"
    by (simp add: CTRs_that_generated_data_def np_random_rand1_def np_tile_def counting_def
        advance_def numeral_2_eq_2)
  have init: "\<lparr>regret_accumulator = replicate 1 (replicate 6 0),
      generator = counting\<lparr>calls := 1\<rparr>, runs = []\<rparr> = d0"
    by (simp add: d0_def eval_nat_numeral)
  have e0: "run_experiment ?C 1 2 0 d0 = Some (Inr d1)"
    unfolding d1_def by (rule counting_experiment) (simp_all add: d0_def)
  have e1: "run_experiment ?C 1 2 1 d1 = Some (Inr d2)"
    unfolding d2_def by (rule counting_experiment) (simp_all add: d0_def d1_def)
  have "for_each (run_experiment ?C 1 2) [0, 1] d0 = Some (Inr d2)"
    using e0 e1 by simp
  moreover have "[0..<2] = [0, 1 :: nat]" by (simp add: eval_nat_numeral)
  moreover have "d2 = counting_result"
    by (simp add: d0_def d1_def d2_def counting_result_def)
  ultimately show ?thesis
    unfolding simulation_def start prod.case init by simp
qed

lemma fold_max_length:
  "length r = K \<Longrightarrow> \<forall>row \<in> set rs. length row = K \<Longrightarrow>
   length (fold (\<lambda>row acc. map (\<lambda>(a, b). max a b) (zip acc row)) rs r) = K"
  by (induction rs arbitrary: r) simp_all

lemma np_max_axis0_shape:
  assumes "C \<noteq> []" and "\<forall>row \<in> set C. length row = K"
  shows "\<exists>distri. np_max_axis0 C = Inr distri \<and> length distri = K"
proof -
  from assms(1) obtain r rs where C: "C = r # rs" by (cases C) auto
  with assms(2) have "length r = K" "\<forall>row \<in> set rs. length row = K" by simp_all
  from fold_max_length[OF this] show ?thesis by (simp add: np_max_axis0_def C)
qed

lemma loop_free_choice:
  assumes "choice_func \<in> set loop_free_policies" and "bs \<noteq> []" and "at_least_prior bs"
    and "rng_ok g"
  shows "\<exists>a g'. choice_func bs g = Some (Inr (a, g')) \<and> a < length bs \<and> rng_ok g'"
proof -
  have K: "0 < length bs" using assms(2) by simp
  have r: "\<exists>a g'. random bs g = Some (Inr (a, g')) \<and> a < length bs \<and> rng_ok g'"
    using assms(4) K by (simp add: random_def randint_in_range rng_ok_randint)
  have n: "\<exists>a g'. naive bs g = Some (Inr (a, g')) \<and> a < length bs \<and> rng_ok g'"
    using naive_choice_in_range[OF assms(2,3), of 100] assms(4) by (auto simp: naive_def)
  have u: "\<exists>a g'. UCB bs g = Some (Inr (a, g')) \<and> a < length bs \<and> rng_ok g'"
    using UCB_choice_in_range[OF assms(2,3)] assms(4) by (auto simp: UCB_def)
  have ub: "\<exists>a g'. UCB_bernoulli bs g = Some (Inr (a, g')) \<and> a < length bs \<and> rng_ok g'"
    using UCB_bernoulli_choice_in_range[OF assms(2,3)] assms(4) by (auto simp: UCB_bernoulli_def)
  have t: "\<exists>a g'. thompson_sampling bs g = Some (Inr (a, g')) \<and> a < length bs \<and> rng_ok g'"
  proof -
    let ?s = "fst (pm_rbeta (column0 bs) (column1 bs) g)"
    have g': "snd (pm_rbeta (column0 bs) (column1 bs) g) = advance g" by (simp add: pm_rbeta_def)
    have len: "length ?s = length bs" by (simp add: pm_rbeta_def column0_def column1_def)
    with assms(2) have "?s \<noteq> []" by auto
    from np_argmax_first_max[OF this] obtain k where "np_argmax ?s = Inr k" "k < length bs"
      using len by (auto simp: first_max_def)
    then show ?thesis
      using assms(4) g' by (simp add: thompson_sampling_def case_prod_beta)
  qed
  from assms(1) r n u ub t show ?thesis by (auto simp: loop_free_policies_def)
qed

lemma well_shaped_K:
  assumes "well_shaped tr C K"
  shows "snd (shape tr) = K"
proof -
  from assms obtain r rs where tr: "tr = r # rs" by (cases tr) (auto simp: well_shaped_def)
  with assms have "length (tr ! 0) = K" unfolding well_shaped_def by auto
  with tr show ?thesis by (simp add: shape_def)
qed

lemma one_round_returns:
  assumes ws: "well_shaped tr C K" and cf: "choice_func \<in> set loop_free_policies"
    and inv: "episode_inv tr best n st" and ok: "rng_ok (source st)"
    and n: "n < length tr" and best: "best < K" and d: "length distri = K"
  shows "\<exists>st'. one_round tr C choice_func distri best n st = Some (Inr st') \<and> rng_ok (source st')"
proof -
  let ?bs = "estimated_beta_params st"
  from inv have len: "length ?bs = K" and alp: "at_least_prior ?bs"
    by (simp_all add: episode_inv_def well_shaped_K[OF ws])
  from ws have K: "0 < K" by (simp add: well_shaped_def)
  with len have ne: "?bs \<noteq> []" by auto
  from loop_free_choice[OF cf ne alp ok] obtain a g' where
    c: "choice_func ?bs (source st) = Some (Inr (a, g'))" and a: "a < K" and g': "rng_ok g'"
    using len by auto
  from ws n have rows: "length (tr ! n) = K" "length (C ! n) = K" "n < length C"
    by (simp_all add: well_shaped_def)
  have "one_round tr C choice_func distri best n st =
      Some (Inr (st\<lparr>estimated_beta_params :=
                ?bs[a := (case ?bs ! a of (s, f) \<Rightarrow>
                     if (if tr ! n ! a then 0 else 1) = (0 :: nat) then (s + 1, f) else (s, f + 1))],
              regret := (regret st)[n := distri ! best - C ! n ! a],
              god_regret := (god_regret st)[n := god_signal (tr ! n ! best) (tr ! n ! a)],
              source := g', pulls := pulls st @ [a]\<rparr>))"
    using a n rows best d len
    by (simp add: one_round_def c index2_def index1_def increment_def Let_def)
  with g' show ?thesis by simp
qed

lemma run_rounds_returns:
  assumes ws: "well_shaped tr C K" and cf: "choice_func \<in> set loop_free_policies"
    and ok: "rng_ok g" and n: "n \<le> length tr"
  shows "\<exists>st. run_rounds tr C choice_func n g = Some (Inr st)"
proof -
  from ws have "C \<noteq> []" and "\<forall>row \<in> set C. length row = K"
    by (auto simp: well_shaped_def in_set_conv_nth)
  from np_max_axis0_shape[OF this] obtain distri where
    d: "np_max_axis0 C = Inr distri" and ld: "length distri = K" by blast
  from ws ld have "distri \<noteq> []" by (auto simp: well_shaped_def)
  from np_argmax_first_max[OF this] obtain best where
    b: "np_argmax distri = Inr best" and lb: "best < K"
    using ld by (auto simp: first_max_def)
  have "\<exists>st. for_each (one_round tr C choice_func distri best) [0..<n] (initial_episode tr g)
      = Some (Inr st) \<and> rng_ok (source st)"
    using n
  proof (induction n)
    case 0
    show ?case using ok by (simp add: initial_episode_def split: prod.splits)
  next
    case (Suc n)
    then obtain st where
      f: "for_each (one_round tr C choice_func distri best) [0..<n] (initial_episode tr g)
          = Some (Inr st)" and s: "rng_ok (source st)"
      by auto
    from rounds_invariant[OF f] have inv: "episode_inv tr best n st" .
    from Suc.prems have "n < length tr" by simp
    from one_round_returns[OF ws cf inv s this lb ld] f show ?case
      unfolding for_each_Suc then_do_Inr by blast
  qed
  with d b show ?thesis by (auto simp: run_rounds_def)
qed

lemma run_bandit_returns:
  assumes "well_shaped tr C K" and "choice_func \<in> set loop_free_policies" and "rng_ok g"
  shows "\<exists>res g'. run_bandit_dynamic_alg tr C choice_func g = Some (Inr (res, g'))"
proof -
  from run_rounds_returns[OF assms, of "length tr"] obtain st where
    "run_rounds tr C choice_func (length tr) g = Some (Inr st)" by auto
  then show ?thesis by (simp add: run_bandit_dynamic_alg_def shape_def Let_def)
qed

lemma returned_sequence:
  assumes "run_bandit_dynamic_alg true_rewards CTRs choice_func g = Some (Inr (res, g'))"
  shows "\<exists>st distri best.
           run_rounds true_rewards CTRs choice_func (length true_rewards) g = Some (Inr st) \<and>
           np_max_axis0 CTRs = Inr distri \<and> first_max distri best \<and>
           length (pulls st) = length true_rewards \<and>
           length res = length true_rewards \<and>
           res = np_cumsum (god_regret st) \<and>
           (\<forall>i < length true_rewards.
              god_regret st ! i =
                (if true_rewards ! i ! best \<and> \<not> true_rewards ! i ! (pulls st ! i) then 1
                 else if true_rewards ! i ! (pulls st ! i) \<and> \<not> true_rewards ! i ! best then - 1
                 else 0) \<and>
              res ! i = (\<Sum>j\<le>i. god_regret st ! j))"
proof -
  let ?n = "length true_rewards"
  from assms obtain st where run: "run_rounds true_rewards CTRs choice_func ?n g = Some (Inr st)"
    and res: "res = np_cumsum (god_regret st)"
    by (rule run_bandit_Inr)
  from run obtain distri best where d: "np_max_axis0 CTRs = Inr distri"
    and b: "np_argmax distri = Inr best"
    and f: "for_each (one_round true_rewards CTRs choice_func distri best) [0..<?n]
              (initial_episode true_rewards g) = Some (Inr st)"
    by (rule run_rounds_Inr)
  from rounds_invariant[OF f] have lp: "length (pulls st) = ?n"
    and lg: "length (god_regret st) = ?n"
    and sig: "\<forall>i < ?n. god_regret st ! i =
        god_signal (true_rewards ! i ! best) (true_rewards ! i ! (pulls st ! i))"
    unfolding episode_inv_def by blast+
  have lr: "length res = ?n" by (simp add: res np_cumsum_def lg)
  have each: "\<forall>i < ?n.
      god_regret st ! i =
        (if true_rewards ! i ! best \<and> \<not> true_rewards ! i ! (pulls st ! i) then 1
         else if true_rewards ! i ! (pulls st ! i) \<and> \<not> true_rewards ! i ! best then - 1
         else 0) \<and>
      res ! i = (\<Sum>j\<le>i. god_regret st ! j)"
    using sig lg by (auto simp: god_signal_def res np_cumsum_nth)
  from run d np_argmax_Inr[OF b] lp lr res each show ?thesis by blast
qed

lemma rng_ok_quiet: "rng_ok quiet"
  by (simp add: rng_ok_def quiet_def)

lemma example_well_shaped: "well_shaped example_rewards example_CTRs 2"
  by (simp add: well_shaped_def example_rewards_def example_CTRs_def less_Suc_eq nth_Cons')

lemma incremented_successes:
  assumes "incremented_from_prior K bs" and "k < length bs"
  shows "incremented_from_prior K (bs[k := (fst (bs ! k) + real m, snd (bs ! k))])"
proof (induction m)
  case 0
  show ?case using assms(1) by simp
next
  case (Suc m)
  let ?b = "bs[k := (fst (bs ! k) + real m, snd (bs ! k))]"
  have "increment ?b k 0 = Inr (bs[k := (fst (bs ! k) + real (Suc m), snd (bs ! k))])"
    using assms(2) by (simp add: increment_def ac_simps)
  with Suc show ?case by (rule incremented_from_prior.step)
qed

lemma incremented_failures:
  assumes "incremented_from_prior K bs" and "k < length bs"
  shows "incremented_from_prior K (bs[k := (fst (bs ! k), snd (bs ! k) + real m)])"
proof (induction m)
  case 0
  show ?case using assms(1) by simp
next
  case (Suc m)
  let ?b = "bs[k := (fst (bs ! k), snd (bs ! k) + real m)]"
  have "increment ?b k 1 = Inr (bs[k := (fst (bs ! k), snd (bs ! k) + real (Suc m))])"
    using assms(2) by (simp add: increment_def ac_simps)
  with Suc show ?case by (rule incremented_from_prior.step)
qed

lemma after_98_pulls_each: "incremented_from_prior 2 [(1, 99), (99, 1)]"
proof -
  have p: "prior_belief 2 = [(1, 1), (1, 1)]"
    by (simp add: prior_belief_eq numeral_2_eq_2)
  have a: "incremented_from_prior 2 [(1, 1), (1, 1)]"
    using incremented_from_prior.start[of 2] by (simp only: p)
  from incremented_failures[OF a, of 0 98]
  have b: "incremented_from_prior 2 [(1, 99), (1, 1)]" by simp
  from incremented_successes[OF b, of 1 98] show ?thesis by simp
qed

section \<open>The claims\<close>

text \<open>
  Claim C3, as amended. The policy sees only the belief state, and what it compares with
  the budget is the row total \<open>successes + failures\<close> of an arm: in an episode, the
  pulls of the arm plus the prior mass 2. For every belief state with at least one arm:
  when some row total is below the budget 100, \<open>naive\<close> returns the arm with the least
  row total, the first one among equals; when every row total has reached 100, it
  returns the arm with the highest rate \<open>successes / total\<close> (the first one among equals),
  and every update of the runner leaves all row totals at 100 or more, so that no later
  call explores.
\<close>

theorem naive_explores_then_commits:
  assumes "bs \<noteq> []"
  shows "((\<exists>k < length bs. row_total bs k < 100) \<longrightarrow>
            (\<exists>k. naive bs g = Some (Inr (k, g)) \<and> least_pulled bs k)) \<and>
         ((\<forall>k < length bs. 100 \<le> row_total bs k) \<longrightarrow>
            (\<exists>k. naive bs g = Some (Inr (k, g)) \<and> best_rate bs k) \<and>
            (\<forall>a c bs'. increment bs a c = Inr bs' \<longrightarrow>
               (\<forall>k < length bs'. 100 \<le> row_total bs' k)))"
proof (intro conjI impI)
  assume "\<exists>k < length bs. row_total bs k < 100"
  from naive_choice_explore[OF assms this]
  show "\<exists>k. naive bs g = Some (Inr (k, g)) \<and> least_pulled bs k"
    by (auto simp: naive_def)
next
  assume all: "\<forall>k < length bs. 100 \<le> row_total bs k"
  from naive_choice_exploit[OF assms _ all, of ]
  show "\<exists>k. naive bs g = Some (Inr (k, g)) \<and> best_rate bs k"
    by (auto simp: naive_def)
next
  assume all: "\<forall>k < length bs. 100 \<le> row_total bs k"
  show "\<forall>a c bs'. increment bs a c = Inr bs' \<longrightarrow> (\<forall>k < length bs'. 100 \<le> row_total bs' k)"
  proof (intro allI impI)
    fix a c bs' k
    assume inc: "increment bs a c = Inr bs'" and k: "k < length bs'"
    from increment_row_total[OF inc k] have "k < length bs" "row_total bs k \<le> row_total bs' k"
      using k by simp_all
    with all show "100 \<le> row_total bs' k"
      by (meson order_trans)
  qed
qed

theorem naive_explores_then_commits_witness:
  "row_total [(3, 2), (1, 1), (1, 1)] 1 < 100 \<and>
   naive [(3, 2), (1, 1), (1, 1)] quiet = Some (Inr (1, quiet)) \<and>
   least_pulled [(3, 2), (1, 1), (1, 1)] 1 \<and>
   100 \<le> row_total [(1, 99), (99, 1)] 0 \<and> 100 \<le> row_total [(1, 99), (99, 1)] 1 \<and>
   naive [(1, 99), (99, 1)] quiet = Some (Inr (1, quiet)) \<and>
   best_rate [(1, 99), (99, 1)] 1 \<and>
   increment [(1, 99), (99, 1)] 1 1 = Inr [(1, 99), (99, 2)] \<and>
   100 \<le> row_total [(1, 99), (99, 2)] 0 \<and> 100 \<le> row_total [(1, 99), (99, 2)] 1"
proof -
  have ne1: "[(3, 2), (1, 1), (1, 1)] \<noteq> ([] :: belief)" by simp
  have ne2: "[(1, 99), (99, 1)] \<noteq> ([] :: belief)" by simp
  have e1: "naive [(3, 2), (1, 1), (1, 1)] quiet = Some (Inr (1, quiet))"
    by (simp add: naive_def naive_choice_def sum_axis1_def np_argmin_def)
  have e2: "naive [(1, 99), (99, 1)] quiet = Some (Inr (1, quiet))"
    by (simp add: naive_def naive_choice_def sum_axis1_def column0_def np_divide_def np_argmax_def)
  have x1: "\<exists>k < length [(3, 2), (1, 1), (1, 1)]. row_total [(3, 2), (1, 1), (1, 1)] k < 100"
    by (rule exI[of _ 1]) (simp add: row_total_def)
  have x2: "\<forall>k < length [(1, 99), (99, 1)]. 100 \<le> row_total [(1, 99), (99, 1)] k"
    by (simp add: row_total_def less_Suc_eq nth_Cons')
  have i2: "increment [(1, 99), (99, 1)] 1 1 = Inr [(1, 99), (99, 2)]"
    by (simp add: increment_def)
  from naive_explores_then_commits[OF ne1, of quiet] x1 e1
  have a: "least_pulled [(3, 2), (1, 1), (1, 1)] 1" by auto
  from naive_explores_then_commits[OF ne2, of quiet] x2 e2 i2
  have b: "best_rate [(1, 99), (99, 1)] 1"
    and c: "\<forall>k < length [(1, 99), (99, 2)]. 100 \<le> row_total [(1, 99), (99, 2)] k"
    by auto
  from c have c0: "100 \<le> row_total [(1, 99), (99, 2)] 0"
    and c1: "100 \<le> row_total [(1, 99), (99, 2)] 1" by simp_all
  from x2 have x20: "100 \<le> row_total [(1, 99), (99, 1)] 0"
    and x21: "100 \<le> row_total [(1, 99), (99, 1)] 1" by simp_all
  have x10: "row_total [(3, 2), (1, 1), (1, 1)] 1 < 100" by (simp add: row_total_def)
  from x10 e1 a x20 x21 e2 b i2 c0 c1 show ?thesis by blast
qed



text \<open>
  Claim C10. Let the belief state have at least one arm and entries at least the prior,
  let the random source keep its draws in range, and let \<open>epsilon_greedy\<close> (with any
  epsilon) take its exploration branch. With exactly one arm the call never returns:
  every integer draw is the only index, which is the best-mean arm. With any number of
  arms the call returns exactly when some integer draw after the uniform one differs from
  the best-mean arm.
\<close>

theorem epsilon_greedy_total_iff_other_arm_drawn:
  assumes "bs \<noteq> []" and "at_least_prior bs" and "rng_ok g"
    and "rand_out g (calls g) 0 < eps"
  shows "(length bs = 1 \<longrightarrow> epsilon_greedy_with eps bs g = None) \<and>
         (epsilon_greedy_with eps bs g \<noteq> None \<longleftrightarrow>
            (\<exists>b m. best_rate bs b \<and> randint_out g (Suc (calls g) + m) (length bs) \<noteq> b))"
proof -
  from epsilon_greedy_best[OF assms(1,2)]
  obtain b where b: "best_mean_arm bs = Inr b" and br: "best_rate bs b" by blast
  have iff: "epsilon_greedy_with eps bs g \<noteq> None \<longleftrightarrow>
      (\<exists>m. randint_out g (Suc (calls g) + m) (length bs) \<noteq> b)"
    by (rule epsilon_greedy_explore_iff[OF assms(1) b assms(4)])
  have second: "epsilon_greedy_with eps bs g \<noteq> None \<longleftrightarrow>
      (\<exists>b m. best_rate bs b \<and> randint_out g (Suc (calls g) + m) (length bs) \<noteq> b)"
    using iff br best_rate_unique[OF br] by blast
  have first: "epsilon_greedy_with eps bs g = None" if one: "length bs = 1"
  proof -
    have "b = 0" using br one by (simp add: best_rate_def)
    moreover have "randint_out g c (length bs) = 0" for c
      using rng_ok_randint[OF assms(3), of "length bs" c] one by simp
    ultimately show ?thesis using iff by simp
  qed
  from first second show ?thesis by blast
qed

theorem epsilon_greedy_total_iff_other_arm_drawn_witness:
  "rng_ok eager \<and> rand_out eager (calls eager) 0 < 1 / 100 \<and>
   at_least_prior [(1, 1)] \<and> epsilon_greedy [(1, 1)] eager = None \<and>
   at_least_prior [(1, 1), (1, 1)] \<and> best_rate [(1, 1), (1, 1)] 0 \<and>
   randint_out eager (Suc (calls eager) + 1) (length [(1 :: real, 1 :: real), (1, 1)]) \<noteq> 0 \<and>
   epsilon_greedy [(1, 1), (1, 1)] eager \<noteq> None"
proof -
  have ex: "rand_out eager (calls eager) 0 < 1 / 100" by (simp add: eager_def)
  have ok1: "at_least_prior [(1, 1)]" by (simp add: at_least_prior_def)
  have ok2: "at_least_prior [(1, 1), (1, 1)]"
    by (simp add: at_least_prior_def less_Suc_eq nth_Cons')
  have br: "best_rate [(1, 1), (1, 1)] 0"
    by (simp add: best_rate_def success_rate_def row_total_def less_Suc_eq nth_Cons')
  have d: "randint_out eager (Suc (calls eager) + 1) (length [(1 :: real, 1 :: real), (1, 1)]) \<noteq> 0"
    by (simp add: eager_def mod_Suc)
  have ne1: "[(1, 1)] \<noteq> ([] :: belief)" and ne2: "[(1, 1), (1, 1)] \<noteq> ([] :: belief)"
    by simp_all
  from epsilon_greedy_total_iff_other_arm_drawn[OF ne1 ok1 rng_ok_eager ex]
  have a: "epsilon_greedy [(1, 1)] eager = None" by (simp add: epsilon_greedy_def)
  from epsilon_greedy_total_iff_other_arm_drawn[OF ne2 ok2 rng_ok_eager ex] br d
  have b: "epsilon_greedy [(1, 1), (1, 1)] eager \<noteq> None"
    unfolding epsilon_greedy_def by blast
  from rng_ok_eager ex ok1 a ok2 br d b show ?thesis by blast
qed

text \<open>
  Claim C6. For every belief state with at least one arm and entries at least the prior,
  and every random source whose uniform draws lie in \<open>[0, 1)\<close>: with epsilon 0,
  \<open>epsilon_greedy\<close> returns the arm of the highest empirical mean (the exploration branch
  needs a draw below 0); and with any epsilon, an arm returned from the exploration
  branch is a valid index other than the best-mean arm.
\<close>

theorem epsilon_zero_exploits_and_exploration_avoids_best:
  assumes "bs \<noteq> []" and "at_least_prior bs" and "rng_ok g"
  shows "(\<exists>k. epsilon_greedy_with 0 bs g = Some (Inr (k, advance g)) \<and> best_rate bs k) \<and>
         (\<forall>eps k g'. rand_out g (calls g) 0 < eps \<and>
              epsilon_greedy_with eps bs g = Some (Inr (k, g')) \<longrightarrow>
              k < length bs \<and> (\<forall>b. best_rate bs b \<longrightarrow> k \<noteq> b))"
proof -
  from epsilon_greedy_best[OF assms(1,2)]
  obtain b where b: "best_mean_arm bs = Inr b" and br: "best_rate bs b" by blast
  have "\<not> rand_out g (calls g) 0 < 0" using assms(3) by (simp add: rng_ok_def not_less)
  from epsilon_greedy_exploit[OF b this] br
  have first: "\<exists>k. epsilon_greedy_with 0 bs g = Some (Inr (k, advance g)) \<and> best_rate bs k"
    by blast
  have second: "k < length bs \<and> (\<forall>b. best_rate bs b \<longrightarrow> k \<noteq> b)"
    if ex: "rand_out g (calls g) 0 < eps"
      and ret: "epsilon_greedy_with eps bs g = Some (Inr (k, g'))" for eps k g'
  proof -
    let ?K = "length bs"
    have K: "0 < ?K" using assms(1) by simp
    have "resample ?K b (randint_out g (Suc (calls g)) ?K) (advance (advance g))
        = Some (Inr (k, g'))"
      using epsilon_greedy_explore[OF b ex assms(1)] ret by simp
    moreover have "randint_out g (Suc (calls g)) ?K < ?K"
      using assms(3) K by (simp add: rng_ok_def)
    ultimately have "k < ?K \<and> k \<noteq> b"
      using resample_result[of ?K b _ "advance (advance g)" "Inr (k, g')"] K assms(3) by auto
    then show ?thesis using best_rate_unique[OF br] by blast
  qed
  from first second show ?thesis by blast
qed

theorem epsilon_zero_exploits_and_exploration_avoids_best_witness:
  "rng_ok eager \<and> at_least_prior [(1, 1), (1, 1)] \<and>
   epsilon_greedy_with 0 [(1, 1), (1, 1)] eager = Some (Inr (0, advance eager)) \<and>
   best_rate [(1, 1), (1, 1)] 0 \<and>
   rand_out eager (calls eager) 0 < 1 / 100 \<and>
   epsilon_greedy [(1, 1), (1, 1)] eager = Some (Inr (1, advance (advance (advance eager)))) \<and>
   (1 :: nat) < length [(1 :: real, 1 :: real), (1, 1)] \<and> \<not> best_rate [(1, 1), (1, 1)] 1"
proof -
  have ex: "rand_out eager (calls eager) 0 < 1 / 100" by (simp add: eager_def)
  have ok2: "at_least_prior [(1, 1), (1, 1)]"
    by (simp add: at_least_prior_def less_Suc_eq nth_Cons')
  have ne2: "[(1, 1), (1, 1)] \<noteq> ([] :: belief)" by simp
  have bm: "best_mean_arm [(1, 1), (1, 1)] = Inr 0"
    by (simp add: best_mean_arm_def sum_axis1_def column0_def np_divide_def np_argmax_def)
  have run: "epsilon_greedy [(1, 1), (1, 1)] eager
      = Some (Inr (1, advance (advance (advance eager))))"
    unfolding epsilon_greedy_def epsilon_greedy_explore[OF bm ex ne2]
    by (subst resample.simps, simp add: eager_def randint_in_range mod_Suc,
        subst resample.simps, simp add: eager_def mod_Suc)
  note t = epsilon_zero_exploits_and_exploration_avoids_best[OF ne2 ok2 rng_ok_eager]
  from t obtain k where k: "epsilon_greedy_with 0 [(1, 1), (1, 1)] eager = Some (Inr (k, advance eager))"
    and brk: "best_rate [(1, 1), (1, 1)] k" by blast
  have "epsilon_greedy_with 0 [(1, 1), (1, 1)] eager = Some (Inr (0, advance eager))"
    by (rule epsilon_greedy_exploit[OF bm]) (simp add: eager_def)
  with k brk have z: "epsilon_greedy_with 0 [(1, 1), (1, 1)] eager = Some (Inr (0, advance eager))"
    and br0: "best_rate [(1, 1), (1, 1)] 0" by simp_all
  from t ex run have "1 < length [(1 :: real, 1 :: real), (1, 1)]"
    and "\<forall>b. best_rate [(1, 1), (1, 1)] b \<longrightarrow> 1 \<noteq> b"
    unfolding epsilon_greedy_def by blast+
  then have l: "(1 :: nat) < length [(1 :: real, 1 :: real), (1, 1)]"
    and nb: "\<not> best_rate [(1, 1), (1, 1)] 1" by auto
  from rng_ok_eager ok2 z br0 ex run l nb show ?thesis by blast
qed

text \<open>
  Claim C7. A belief state that starts as the prior \<open>(1, 1)\<close> of every arm and is changed
  only by the runner's increments has a strictly positive total in every row, so the
  divisions of the mean and of the variance by these totals succeed; and with at least
  one arm, none of the four policies that divide fails on such a state.
\<close>

theorem prior_keeps_divisors_positive:
  assumes "incremented_from_prior K bs"
  shows "(\<forall>k < length bs. 0 < row_total bs k) \<and>
         (\<exists>means. np_divide (column0 bs) (sum_axis1 bs) = Inr means \<and>
            (\<exists>ratio. np_divide (map (\<lambda>m. m - m ^ 2) means) (sum_axis1 bs) = Inr ratio)) \<and>
         (0 < K \<longrightarrow>
            (\<exists>k. naive_choice bs b = Inr k) \<and> (\<exists>k. best_mean_arm bs = Inr k) \<and>
            (\<exists>k. UCB_choice bs = Inr k) \<and> (\<exists>k. UCB_bernoulli_choice bs = Inr k))"
proof -
  from incremented_invariant[OF assms] have len: "length bs = K" and ok: "at_least_prior bs"
    by simp_all
  have pos: "\<forall>k < length bs. 0 < row_total bs k"
    using at_least_prior_total[OF ok] by fastforce
  have nz: "\<forall>y \<in> set (sum_axis1 bs). y \<noteq> 0" by (rule totals_nonzero[OF ok])
  then have nex: "\<not> list_ex (\<lambda>y. y = 0) (sum_axis1 bs)" by (auto simp: list_ex_iff)
  have divs: "\<exists>means. np_divide (column0 bs) (sum_axis1 bs) = Inr means \<and>
      (\<exists>ratio. np_divide (map (\<lambda>m. m - m ^ 2) means) (sum_axis1 bs) = Inr ratio)"
    using nex by (simp add: np_divide_def)
  have pol: "(\<exists>k. naive_choice bs b = Inr k) \<and> (\<exists>k. best_mean_arm bs = Inr k) \<and>
      (\<exists>k. UCB_choice bs = Inr k) \<and> (\<exists>k. UCB_bernoulli_choice bs = Inr k)" if "0 < K"
  proof -
    from that len have ne: "bs \<noteq> []" by auto
    from naive_choice_in_range[OF ne ok, of b] best_mean_arm_in_range[OF ne ok]
      UCB_choice_in_range[OF ne ok] UCB_bernoulli_choice_in_range[OF ne ok]
    show ?thesis by blast
  qed
  from pos divs pol show ?thesis by blast
qed

theorem prior_keeps_divisors_positive_witness:
  "incremented_from_prior 2 [(2, 1), (1, 2)] \<and>
   0 < row_total [(2, 1), (1, 2)] 0 \<and> 0 < row_total [(2, 1), (1, 2)] 1 \<and>
   np_divide (column0 [(2, 1), (1, 2)]) (sum_axis1 [(2, 1), (1, 2)]) = Inr [2 / 3, 1 / 3] \<and>
   naive_choice [(2, 1), (1, 2)] 100 = Inr 0 \<and> best_mean_arm [(2, 1), (1, 2)] = Inr 0 \<and>
   (\<exists>k. UCB_choice [(2, 1), (1, 2)] = Inr k) \<and>
   (\<exists>k. UCB_bernoulli_choice [(2, 1), (1, 2)] = Inr k)"
proof -
  note t = prior_keeps_divisors_positive[OF example_incremented, of 100]
  from t have pos: "\<forall>k < length [(2 :: real, 1 :: real), (1, 2)]. 0 < row_total [(2, 1), (1, 2)] k"
    by (elim conjE)
  then have p0: "0 < row_total [(2, 1), (1, 2)] 0" and p1: "0 < row_total [(2, 1), (1, 2)] 1"
    by simp_all
  from t have u: "\<exists>k. UCB_choice [(2, 1), (1, 2)] = Inr k"
    and ub: "\<exists>k. UCB_bernoulli_choice [(2, 1), (1, 2)] = Inr k" by simp_all
  have d: "np_divide (column0 [(2, 1), (1, 2)]) (sum_axis1 [(2, 1), (1, 2)]) = Inr [2 / 3, 1 / 3]"
    by (simp add: np_divide_def column0_def sum_axis1_def)
  have n: "naive_choice [(2, 1), (1, 2)] 100 = Inr 0"
    by (simp add: naive_choice_def sum_axis1_def np_argmin_def)
  have b: "best_mean_arm [(2, 1), (1, 2)] = Inr 0"
    by (simp add: best_mean_arm_def sum_axis1_def column0_def np_divide_def np_argmax_def)
  show ?thesis
    by (intro conjI) (fact example_incremented p0 p1 d n b u ub)+
qed

text \<open>
  Claim C8, as amended. For every belief state with at least one arm and entries at
  least the prior, and every random source whose draws are in range: \<open>random\<close>, \<open>naive\<close>,
  \<open>UCB\<close>, \<open>UCB_bernoulli\<close> and \<open>thompson_sampling\<close> return an arm index below the
  number of arms; whatever \<open>epsilon_greedy\<close> returns is such an index; and
  \<open>epsilon_greedy\<close> returns when it does not explore or when some integer draw after
  the uniform one differs from the best-mean arm.
\<close>

theorem policies_choose_arm_in_range:
  assumes "bs \<noteq> []" and "at_least_prior bs" and "rng_ok g"
  shows "(\<exists>k g'. random bs g = Some (Inr (k, g')) \<and> k < length bs) \<and>
         (\<exists>k g'. naive bs g = Some (Inr (k, g')) \<and> k < length bs) \<and>
         (\<exists>k g'. UCB bs g = Some (Inr (k, g')) \<and> k < length bs) \<and>
         (\<exists>k g'. UCB_bernoulli bs g = Some (Inr (k, g')) \<and> k < length bs) \<and>
         (\<exists>k g'. thompson_sampling bs g = Some (Inr (k, g')) \<and> k < length bs) \<and>
         (\<forall>r. epsilon_greedy bs g = Some r \<longrightarrow> (\<exists>k g'. r = Inr (k, g') \<and> k < length bs)) \<and>
         (\<not> rand_out g (calls g) 0 < 1 / 100 \<or>
            (\<exists>b m. best_rate bs b \<and> randint_out g (Suc (calls g) + m) (length bs) \<noteq> b)
          \<longrightarrow> epsilon_greedy bs g \<noteq> None)"
proof -
  have r: "\<exists>k g'. random bs g = Some (Inr (k, g')) \<and> k < length bs"
    by (rule random_in_range[OF assms(1,3)])
  have n: "\<exists>k g'. naive bs g = Some (Inr (k, g')) \<and> k < length bs"
    using naive_choice_in_range[OF assms(1,2), of 100] by (auto simp: naive_def)
  have u: "\<exists>k g'. UCB bs g = Some (Inr (k, g')) \<and> k < length bs"
    using UCB_choice_in_range[OF assms(1,2)] by (auto simp: UCB_def)
  have ub: "\<exists>k g'. UCB_bernoulli bs g = Some (Inr (k, g')) \<and> k < length bs"
    using UCB_bernoulli_choice_in_range[OF assms(1,2)] by (auto simp: UCB_bernoulli_def)
  have t: "\<exists>k g'. thompson_sampling bs g = Some (Inr (k, g')) \<and> k < length bs"
    by (rule thompson_sampling_in_range[OF assms(1)])
  from epsilon_greedy_best[OF assms(1,2)]
  obtain b where b: "best_mean_arm bs = Inr b" and br: "best_rate bs b" by blast
  have K: "0 < length bs" using assms(1) by simp
  have e1: "\<exists>k g'. r = Inr (k, g') \<and> k < length bs" if ret: "epsilon_greedy bs g = Some r" for r
  proof (cases "rand_out g (calls g) 0 < 1 / 100")
    case True
    have "resample (length bs) b (randint_out g (Suc (calls g)) (length bs)) (advance (advance g))
        = Some r"
      using epsilon_greedy_explore[OF b True assms(1)] ret by (simp add: epsilon_greedy_def)
    from resample_result[OF this K rng_ok_randint[OF assms(3) K]] assms(3)
    show ?thesis by auto
  next
    case False
    from epsilon_greedy_exploit[OF b False] ret br show ?thesis
      by (auto simp: epsilon_greedy_def best_rate_def)
  qed
  have e2: "epsilon_greedy bs g \<noteq> None"
    if "\<not> rand_out g (calls g) 0 < 1 / 100 \<or>
        (\<exists>b m. best_rate bs b \<and> randint_out g (Suc (calls g) + m) (length bs) \<noteq> b)"
  proof (cases "rand_out g (calls g) 0 < 1 / 100")
    case True
    with that obtain b' m where "best_rate bs b'"
      and "randint_out g (Suc (calls g) + m) (length bs) \<noteq> b'" by blast
    with best_rate_unique[OF br] have "\<exists>m. randint_out g (Suc (calls g) + m) (length bs) \<noteq> b"
      by blast
    with epsilon_greedy_explore_iff[OF assms(1) b True] show ?thesis
      by (simp add: epsilon_greedy_def)
  next
    case False
    from epsilon_greedy_exploit[OF b False] show ?thesis by (simp add: epsilon_greedy_def)
  qed
  from e1 have e1': "\<forall>r. epsilon_greedy bs g = Some r \<longrightarrow>
      (\<exists>k g'. r = Inr (k, g') \<and> k < length bs)" by blast
  from e2 have e2': "\<not> rand_out g (calls g) 0 < 1 / 100 \<or>
        (\<exists>b m. best_rate bs b \<and> randint_out g (Suc (calls g) + m) (length bs) \<noteq> b)
      \<longrightarrow> epsilon_greedy bs g \<noteq> None" by blast
  show ?thesis
    by (intro conjI) (fact r n u ub t e1' e2')+
qed

text \<open>
  Against claim C8 as it is stated (every policy returns on every sequence of draws):
  on the prior state of two arms, with a uniform draw of 0 and integer draws that are all
  0, the best-mean arm, \<open>epsilon_greedy\<close> never returns.
\<close>

theorem epsilon_greedy_may_never_return:
  "[(1, 1), (1, 1)] \<noteq> ([] :: belief) \<and> at_least_prior [(1, 1), (1, 1)] \<and> rng_ok stuck \<and>
   epsilon_greedy [(1, 1), (1, 1)] stuck = None"
proof -
  have ne: "[(1, 1), (1, 1)] \<noteq> ([] :: belief)" by simp
  have ok: "at_least_prior [(1, 1), (1, 1)]"
    by (simp add: at_least_prior_def less_Suc_eq nth_Cons')
  have bm: "best_mean_arm [(1, 1), (1, 1)] = Inr 0"
    by (simp add: best_mean_arm_def sum_axis1_def column0_def np_divide_def np_argmax_def)
  have ex: "rand_out stuck (calls stuck) 0 < 1 / 100" by (simp add: stuck_def)
  have "\<not> (\<exists>m. randint_out stuck (Suc (calls stuck) + m) (length [(1 :: real, 1 :: real), (1, 1)]) \<noteq> 0)"
    by (simp add: stuck_def)
  with epsilon_greedy_explore_iff[OF ne bm ex]
  have "epsilon_greedy [(1, 1), (1, 1)] stuck = None" by (simp add: epsilon_greedy_def)
  with ne ok rng_ok_stuck show ?thesis by blast
qed

theorem policies_choose_arm_in_range_witness:
  "[(1, 1), (1, 1)] \<noteq> ([] :: belief) \<and> at_least_prior [(1, 1), (1, 1)] \<and> rng_ok eager \<and>
   random [(1, 1), (1, 1)] eager = Some (Inr (1, advance eager)) \<and>
   naive [(1, 1), (1, 1)] eager = Some (Inr (0, eager)) \<and>
   (\<exists>k g'. UCB [(1, 1), (1, 1)] eager = Some (Inr (k, g')) \<and> k < 2) \<and>
   (\<exists>k g'. UCB_bernoulli [(1, 1), (1, 1)] eager = Some (Inr (k, g')) \<and> k < 2) \<and>
   thompson_sampling [(1, 1), (1, 1)] eager = Some (Inr (0, advance eager)) \<and>
   epsilon_greedy [(1, 1), (1, 1)] eager = Some (Inr (1, advance (advance (advance eager))))"
proof -
  have ne: "[(1, 1), (1, 1)] \<noteq> ([] :: belief)" by simp
  have ok: "at_least_prior [(1, 1), (1, 1)]"
    by (simp add: at_least_prior_def less_Suc_eq nth_Cons')
  note t = policies_choose_arm_in_range[OF ne ok rng_ok_eager]
  from t have "\<exists>k g'. UCB [(1, 1), (1, 1)] eager = Some (Inr (k, g')) \<and>
      k < length [(1 :: real, 1 :: real), (1, 1)]"
    by (elim conjE)
  then have u: "\<exists>k g'. UCB [(1, 1), (1, 1)] eager = Some (Inr (k, g')) \<and> k < 2"
    by (simp add: numeral_2_eq_2)
  from t have "\<exists>k g'. UCB_bernoulli [(1, 1), (1, 1)] eager = Some (Inr (k, g')) \<and>
      k < length [(1 :: real, 1 :: real), (1, 1)]"
    by (elim conjE)
  then have ub: "\<exists>k g'. UCB_bernoulli [(1, 1), (1, 1)] eager = Some (Inr (k, g')) \<and> k < 2"
    by (simp add: numeral_2_eq_2)
  have r: "random [(1, 1), (1, 1)] eager = Some (Inr (1, advance eager))"
    by (simp add: random_def np_random_randint_def eager_def)
  have n: "naive [(1, 1), (1, 1)] eager = Some (Inr (0, eager))"
    by (simp add: naive_def naive_choice_def sum_axis1_def np_argmin_def)
  have th: "thompson_sampling [(1, 1), (1, 1)] eager = Some (Inr (0, advance eager))"
    by (simp add: thompson_sampling_def pm_rbeta_def column0_def column1_def np_argmax_def
        eager_def)
  have bm: "best_mean_arm [(1, 1), (1, 1)] = Inr 0"
    by (simp add: best_mean_arm_def sum_axis1_def column0_def np_divide_def np_argmax_def)
  have ex: "rand_out eager (calls eager) 0 < 1 / 100" by (simp add: eager_def)
  have e: "epsilon_greedy [(1, 1), (1, 1)] eager
      = Some (Inr (1, advance (advance (advance eager))))"
    unfolding epsilon_greedy_def epsilon_greedy_explore[OF bm ex ne]
    by (subst resample.simps, simp add: eager_def randint_in_range mod_Suc,
        subst resample.simps, simp add: eager_def mod_Suc)
  show ?thesis
    by (intro conjI) (fact ne ok rng_ok_eager r n u ub th e)+
qed

text \<open>
  Claim C4. After any number \<open>n\<close> of rounds of an episode, both entries of every row of
  the belief state are at least 1, and the sum of row \<open>k\<close> is the number of times arm
  \<open>k\<close> was chosen in these rounds plus 2; and the round that follows adds 1 to exactly one
  entry, the success or the failure entry of the row of the arm it chose, and changes
  nothing else of the belief state.
\<close>

theorem belief_rows_count_pulls:
  assumes "run_rounds true_rewards CTRs choice_func n g = Some (Inr st)"
  shows "length (pulls st) = n \<and>
         (\<forall>k < length (estimated_beta_params st).
            1 \<le> fst (estimated_beta_params st ! k) \<and> 1 \<le> snd (estimated_beta_params st ! k) \<and>
            fst (estimated_beta_params st ! k) + snd (estimated_beta_params st ! k)
              = real (count_list (pulls st) k) + 2) \<and>
         (\<forall>st'. run_rounds true_rewards CTRs choice_func (Suc n) g = Some (Inr st') \<longrightarrow>
            (\<exists>a < length (estimated_beta_params st).
               pulls st' = pulls st @ [a] \<and>
               (estimated_beta_params st' = (estimated_beta_params st)
                   [a := (fst (estimated_beta_params st ! a) + 1, snd (estimated_beta_params st ! a))] \<or>
                estimated_beta_params st' = (estimated_beta_params st)
                   [a := (fst (estimated_beta_params st ! a), snd (estimated_beta_params st ! a) + 1)])))"
proof -
  let ?bs = "estimated_beta_params st"
  from assms obtain distri best where
    "for_each (one_round true_rewards CTRs choice_func distri best) [0..<n]
       (initial_episode true_rewards g) = Some (Inr st)"
    by (rule run_rounds_Inr)
  then have inv: "episode_inv true_rewards best n st" by (rule rounds_invariant)
  then have lp: "length (pulls st) = n" by (simp add: episode_inv_def)
  have rows: "\<forall>k < length ?bs. 1 \<le> fst (?bs ! k) \<and> 1 \<le> snd (?bs ! k) \<and>
      fst (?bs ! k) + snd (?bs ! k) = real (count_list (pulls st) k) + 2"
    using inv by (simp add: episode_inv_def at_least_prior_def row_total_def)
  have next_round: "\<exists>a < length ?bs. pulls st' = pulls st @ [a] \<and>
      (estimated_beta_params st' = ?bs[a := (fst (?bs ! a) + 1, snd (?bs ! a))] \<or>
       estimated_beta_params st' = ?bs[a := (fst (?bs ! a), snd (?bs ! a) + 1)])"
    if "run_rounds true_rewards CTRs choice_func (Suc n) g = Some (Inr st')" for st'
  proof -
    from that obtain st0 distri best where
      "run_rounds true_rewards CTRs choice_func n g = Some (Inr st0)"
      and s: "one_round true_rewards CTRs choice_func distri best n st0 = Some (Inr st')"
      by (rule run_rounds_Suc)
    with assms have "st0 = st" by simp
    with s have "one_round true_rewards CTRs choice_func distri best n st = Some (Inr st')" by simp
    then obtain a g' r bs' x y where
      inc: "increment ?bs a (if r then 0 else 1) = Inr bs'"
      and st': "st' = st\<lparr>estimated_beta_params := bs', regret := (regret st)[n := x],
              god_regret := (god_regret st)[n := god_signal y r], source := g',
              pulls := pulls st @ [a]\<rparr>"
      by (rule one_round_Inr)
    from inc st' show ?thesis
      by (cases r) (auto simp: increment_Inr)
  qed
  from lp rows next_round show ?thesis by blast
qed

theorem belief_rows_count_pulls_witness:
  "run_rounds example_rewards example_CTRs naive 1 quiet = Some (Inr after_round_0) \<and>
   run_rounds example_rewards example_CTRs naive 2 quiet = Some (Inr after_round_1) \<and>
   estimated_beta_params after_round_0 = [(2, 1), (1, 1)] \<and> pulls after_round_0 = [0] \<and>
   estimated_beta_params after_round_1 = [(2, 1), (2, 1)] \<and> pulls after_round_1 = [0, 1] \<and>
   length (pulls after_round_0) = 1 \<and>
   fst (estimated_beta_params after_round_0 ! 0) + snd (estimated_beta_params after_round_0 ! 0)
     = real (count_list (pulls after_round_0) 0) + 2 \<and>
   (\<exists>a < length (estimated_beta_params after_round_0).
      pulls after_round_1 = pulls after_round_0 @ [a] \<and>
      (estimated_beta_params after_round_1 = (estimated_beta_params after_round_0)
          [a := (fst (estimated_beta_params after_round_0 ! a) + 1,
                 snd (estimated_beta_params after_round_0 ! a))] \<or>
       estimated_beta_params after_round_1 = (estimated_beta_params after_round_0)
          [a := (fst (estimated_beta_params after_round_0 ! a),
                 snd (estimated_beta_params after_round_0 ! a) + 1)]))"
proof -
  note t = belief_rows_count_pulls[OF example_run_1]
  from t have l: "length (pulls after_round_0) = 1" by (elim conjE)
  from t have "\<forall>k < length (estimated_beta_params after_round_0).
      1 \<le> fst (estimated_beta_params after_round_0 ! k) \<and>
      1 \<le> snd (estimated_beta_params after_round_0 ! k) \<and>
      fst (estimated_beta_params after_round_0 ! k) + snd (estimated_beta_params after_round_0 ! k)
        = real (count_list (pulls after_round_0) k) + 2" by (elim conjE)
  then have row: "fst (estimated_beta_params after_round_0 ! 0)
        + snd (estimated_beta_params after_round_0 ! 0)
      = real (count_list (pulls after_round_0) 0) + 2"
    by (simp add: after_round_0_def)
  from t example_run_2 have nxt: "\<exists>a < length (estimated_beta_params after_round_0).
      pulls after_round_1 = pulls after_round_0 @ [a] \<and>
      (estimated_beta_params after_round_1 = (estimated_beta_params after_round_0)
          [a := (fst (estimated_beta_params after_round_0 ! a) + 1,
                 snd (estimated_beta_params after_round_0 ! a))] \<or>
       estimated_beta_params after_round_1 = (estimated_beta_params after_round_0)
          [a := (fst (estimated_beta_params after_round_0 ! a),
                 snd (estimated_beta_params after_round_0 ! a) + 1)])"
    by (simp only: One_nat_def numeral_2_eq_2)
  have v: "estimated_beta_params after_round_0 = [(2, 1), (1, 1)]" "pulls after_round_0 = [0]"
    "estimated_beta_params after_round_1 = [(2, 1), (2, 1)]" "pulls after_round_1 = [0, 1]"
    by (simp_all add: after_round_0_def after_round_1_def)
  show ?thesis
    by (intro conjI) (fact example_run_1 example_run_2 v l row nxt)+
qed

text \<open>
  Claim C9. Two runs of the runner on the same reward matrix and the same probabilities
  with the same one of the six policies, on two random sources that give the same
  sequence of draws, choose the same arms in every round and return the same sequence
  (or fail with the same error, or both never return). The runner builds its belief
  state itself, from the prior, so the two runs start from the same one.
\<close>

theorem same_draws_same_episode:
  assumes "same_draws g1 g2" and "choice_func \<in> set six_policies"
  shows "map_option (map_sum id pulls) (run_rounds true_rewards CTRs choice_func n g1)
           = map_option (map_sum id pulls) (run_rounds true_rewards CTRs choice_func n g2) \<and>
         map_option (map_sum id fst) (run_bandit_dynamic_alg true_rewards CTRs choice_func g1)
           = map_option (map_sum id fst) (run_bandit_dynamic_alg true_rewards CTRs choice_func g2)"
proof -
  have a: "map_option (map_sum id pulls) (run_rounds true_rewards CTRs choice_func n g1)
      = map_option (map_sum id pulls) (run_rounds true_rewards CTRs choice_func n g2)"
    by (rule same_outcome_map[OF run_rounds_same[OF assms]]) (simp add: same_episode_def)
  let ?m = "fst (shape true_rewards)"
  have "map_option (map_sum id god_regret) (run_rounds true_rewards CTRs choice_func ?m g1)
      = map_option (map_sum id god_regret) (run_rounds true_rewards CTRs choice_func ?m g2)"
    by (rule same_outcome_map[OF run_rounds_same[OF assms]]) (simp add: same_episode_def)
  then have b: "map_option (map_sum id fst) (run_bandit_dynamic_alg true_rewards CTRs choice_func g1)
      = map_option (map_sum id fst) (run_bandit_dynamic_alg true_rewards CTRs choice_func g2)"
    unfolding run_bandit_dynamic_alg_def Let_def
    by (cases "run_rounds true_rewards CTRs choice_func ?m g1";
        cases "run_rounds true_rewards CTRs choice_func ?m g2")
       (auto split: sum.splits)
  from a b show ?thesis by (rule conjI)
qed

theorem same_draws_same_episode_witness:
  "same_draws eager late \<and> epsilon_greedy \<in> set six_policies \<and> calls eager \<noteq> calls late \<and>
   map_option (map_sum id pulls)
     (run_rounds example_rewards example_CTRs epsilon_greedy 2 eager) = Some (Inr [1, 1]) \<and>
   map_option (map_sum id pulls)
     (run_rounds example_rewards example_CTRs epsilon_greedy 2 late) = Some (Inr [1, 1]) \<and>
   map_option (map_sum id fst)
     (run_bandit_dynamic_alg example_rewards example_CTRs epsilon_greedy eager)
     = Some (Inr [1, 0]) \<and>
   map_option (map_sum id fst)
     (run_bandit_dynamic_alg example_rewards example_CTRs epsilon_greedy late)
     = Some (Inr [1, 0])"
proof -
  have six: "epsilon_greedy \<in> set six_policies" by (simp add: six_policies_def)
  have c: "calls eager \<noteq> calls late" by (simp add: eager_def late_def)
  note t = same_draws_same_episode[OF same_draws_eager_late six,
      of example_rewards example_CTRs 2]
  from t example_explore_pulls
  have p2: "map_option (map_sum id pulls)
      (run_rounds example_rewards example_CTRs epsilon_greedy 2 late) = Some (Inr [1, 1])"
    by simp
  from t example_explore_returned
  have r2: "map_option (map_sum id fst)
      (run_bandit_dynamic_alg example_rewards example_CTRs epsilon_greedy late)
      = Some (Inr [1, 0])"
    by simp
  show ?thesis
    by (intro conjI)
       (fact same_draws_eager_late six c example_explore_pulls p2 example_explore_returned r2)+
qed

text \<open>
  Claim C1, as amended. The vector of the true arm probabilities is drawn once, by the
  first call to the random source, before any experiment. When the script completes, the
  calls of the runner are, experiment after experiment, six calls (one for each column 0
  to 5) with the reward matrix of that experiment; and every one of these calls, in every
  experiment, is given the same probability matrix, whose \<open>num_samples\<close> rows all are
  that one vector.
\<close>

theorem one_probability_vector_for_all_experiments:
  assumes "simulation num_samples K number_experiments g = Some (Inr d)"
  shows "\<exists>rewards. length rewards = number_experiments \<and>
           runs d = concat (map (\<lambda>R. map (\<lambda>j.
                      (j, replicate num_samples (map (rand_out g (calls g)) [0..<K]), R)) [0..<6])
                    rewards)"
proof -
  let ?C = "replicate num_samples (map (rand_out g (calls g)) [0..<K])"
  from assms have "for_each (run_experiment ?C num_samples K) [0..<number_experiments]
      \<lparr>regret_accumulator = replicate num_samples (replicate 6 0), generator = advance g,
       runs = []\<rparr> = Some (Inr d)"
    by (simp add: simulation_def CTRs_that_generated_data_def np_random_rand1_def np_tile_def)
  from experiments_runs[OF this] show ?thesis by simp
qed

text \<open>
  Against claim C1 as it is stated (a fresh vector for every experiment): on
  \<open>counting\<close> the script with one round, two arms and two experiments completes. All
  its twelve runs, those of the second experiment too, are given the probabilities
  \<open>[1/2, 1/2]\<close>, the draw of call 0; no later call of the source returns this vector, so
  the second experiment has not drawn one of its own.
\<close>

theorem second_experiment_reuses_first_vector:
  "simulation 1 2 2 counting = Some (Inr counting_result) \<and>
   map (\<lambda>(j, C, R). C) (runs counting_result) = replicate 12 [[1 / 2, 1 / 2]] \<and>
   map (rand_out counting 0) [0..<2] = [1 / 2, 1 / 2] \<and>
   \<not> (\<exists>c > 0. map (rand_out counting c) [0..<2] = [1 / 2, 1 / 2])"
proof -
  have a: "map (\<lambda>(j, C, R). C) (runs counting_result) = replicate 12 [[1 / 2, 1 / 2]]"
    by (simp add: counting_result_def eval_nat_numeral)
  have b: "map (rand_out counting 0) [0..<2] = [1 / 2, 1 / 2]"
    by (simp add: counting_def numeral_2_eq_2)
  have c: "\<not> (\<exists>c > 0. map (rand_out counting c) [0..<2] = [1 / 2, 1 / 2])"
    by (simp add: counting_def numeral_2_eq_2)
  show ?thesis
    by (intro conjI) (fact counting_simulation a b c)+
qed

theorem one_probability_vector_for_all_experiments_witness:
  "simulation 1 2 2 counting = Some (Inr counting_result) \<and>
   (\<exists>rewards. length rewards = 2 \<and>
      runs counting_result = concat (map (\<lambda>R. map (\<lambda>j.
          (j, replicate 1 (map (rand_out counting (calls counting)) [0..<2]), R)) [0..<6])
        rewards)) \<and>
   replicate 1 (map (rand_out counting (calls counting)) [0..<2]) = [[1 / 2, 1 / 2]]"
proof -
  from one_probability_vector_for_all_experiments[OF counting_simulation]
  have a: "\<exists>rewards. length rewards = 2 \<and>
      runs counting_result = concat (map (\<lambda>R. map (\<lambda>j.
          (j, replicate 1 (map (rand_out counting (calls counting)) [0..<2]), R)) [0..<6])
        rewards)" .
  have b: "replicate 1 (map (rand_out counting (calls counting)) [0..<2]) = [[1 / 2, 1 / 2]]"
    by (simp add: counting_def numeral_2_eq_2)
  show ?thesis
    by (intro conjI) (fact counting_simulation a b)+
qed

text \<open>
  Claim C2. Whenever the runner returns a sequence, it comes from a completed loop over
  all \<open>num_samples\<close> rounds; with \<open>best\<close> the first arm of the highest true probability,
  the signal of round \<open>i\<close> is 1 when the best arm's reward of that round is 1 and the
  chosen arm's is 0, -1 when the chosen arm's is 1 and the best arm's is 0, and 0
  otherwise; and entry \<open>i\<close> of the returned sequence is the sum of the signals of the
  rounds up to \<open>i\<close>. The returned sequence is computed from \<open>god_regret\<close>, not from
  \<open>regret\<close>. And the runner does return a sequence on every well-shaped input, with any
  of the five policies without a loop and a random source whose draws are in range.
\<close>

theorem returned_is_running_sum_of_realized_regret:
  "(\<forall>res g'. run_bandit_dynamic_alg true_rewards CTRs choice_func g = Some (Inr (res, g')) \<longrightarrow>
      (\<exists>st distri best.
         run_rounds true_rewards CTRs choice_func (length true_rewards) g = Some (Inr st) \<and>
         np_max_axis0 CTRs = Inr distri \<and> first_max distri best \<and>
         length (pulls st) = length true_rewards \<and>
         length res = length true_rewards \<and>
         res = np_cumsum (god_regret st) \<and>
         (\<forall>i < length true_rewards.
            god_regret st ! i =
              (if true_rewards ! i ! best \<and> \<not> true_rewards ! i ! (pulls st ! i) then 1
               else if true_rewards ! i ! (pulls st ! i) \<and> \<not> true_rewards ! i ! best then - 1
               else 0) \<and>
            res ! i = (\<Sum>j\<le>i. god_regret st ! j)))) \<and>
   (well_shaped true_rewards CTRs K \<and> choice_func \<in> set loop_free_policies \<and> rng_ok g \<longrightarrow>
      (\<exists>res g'. run_bandit_dynamic_alg true_rewards CTRs choice_func g = Some (Inr (res, g'))))"
proof (intro conjI allI impI)
  fix res g'
  assume "run_bandit_dynamic_alg true_rewards CTRs choice_func g = Some (Inr (res, g'))"
  then show "\<exists>st distri best.
         run_rounds true_rewards CTRs choice_func (length true_rewards) g = Some (Inr st) \<and>
         np_max_axis0 CTRs = Inr distri \<and> first_max distri best \<and>
         length (pulls st) = length true_rewards \<and>
         length res = length true_rewards \<and>
         res = np_cumsum (god_regret st) \<and>
         (\<forall>i < length true_rewards.
            god_regret st ! i =
              (if true_rewards ! i ! best \<and> \<not> true_rewards ! i ! (pulls st ! i) then 1
               else if true_rewards ! i ! (pulls st ! i) \<and> \<not> true_rewards ! i ! best then - 1
               else 0) \<and>
            res ! i = (\<Sum>j\<le>i. god_regret st ! j))"
    by (rule returned_sequence)
next
  assume "well_shaped true_rewards CTRs K \<and> choice_func \<in> set loop_free_policies \<and> rng_ok g"
  then show "\<exists>res g'. run_bandit_dynamic_alg true_rewards CTRs choice_func g = Some (Inr (res, g'))"
    by (blast intro: run_bandit_returns)
qed

theorem returned_is_running_sum_of_realized_regret_witness:
  "well_shaped example_rewards example_CTRs 2 \<and> naive \<in> set loop_free_policies \<and> rng_ok quiet \<and>
   run_bandit_dynamic_alg example_rewards example_CTRs naive quiet = Some (Inr ([0, - 1], quiet)) \<and>
   run_rounds example_rewards example_CTRs naive (length example_rewards) quiet
     = Some (Inr after_round_1) \<and>
   np_max_axis0 example_CTRs = Inr [7 / 10, 4 / 10] \<and> first_max [7 / 10, 4 / 10] 0 \<and>
   pulls after_round_1 = [0, 1] \<and> god_regret after_round_1 = [0, - 1] \<and>
   [0, - 1] = np_cumsum (god_regret after_round_1) \<and>
   np_cumsum (regret after_round_1) = [0, 3 / 10] \<and>
   [0, - 1 :: real] ! 1 = (\<Sum>j\<le>1. god_regret after_round_1 ! j)"
proof -
  have len: "length example_rewards = 2" by (simp add: example_rewards_def)
  have lf: "naive \<in> set loop_free_policies" by (simp add: loop_free_policies_def)
  note t = returned_is_running_sum_of_realized_regret[of example_rewards example_CTRs naive quiet 2]
  from t example_well_shaped lf rng_ok_quiet
  obtain res g' where "run_bandit_dynamic_alg example_rewards example_CTRs naive quiet
      = Some (Inr (res, g'))" by blast
  with example_returned have res: "res = [0, - 1]" and g': "g' = quiet" by simp_all
  from t example_returned
  obtain st distri best where
    run: "run_rounds example_rewards example_CTRs naive (length example_rewards) quiet = Some (Inr st)"
    and each: "\<forall>i < length example_rewards.
      god_regret st ! i =
        (if example_rewards ! i ! best \<and> \<not> example_rewards ! i ! (pulls st ! i) then 1
         else if example_rewards ! i ! (pulls st ! i) \<and> \<not> example_rewards ! i ! best then - 1
         else 0) \<and>
      [0, - 1] ! i = (\<Sum>j\<le>i. god_regret st ! j)"
    by blast
  from run have st: "st = after_round_1" by (simp add: len example_run_2)
  have r2: "run_rounds example_rewards example_CTRs naive (length example_rewards) quiet
      = Some (Inr after_round_1)" by (simp add: len example_run_2)
  have "(1 :: nat) < length example_rewards" by (simp add: len)
  with each have "[0, - 1 :: real] ! 1 = (\<Sum>j\<le>1. god_regret st ! j)" by blast
  then have s: "[0, - 1 :: real] ! 1 = (\<Sum>j\<le>1. god_regret after_round_1 ! j)"
    by (simp only: st)
  have m: "np_max_axis0 example_CTRs = Inr [7 / 10, 4 / 10]"
    by (simp add: np_max_axis0_def example_CTRs_def)
  have fm: "first_max [7 / 10, 4 / 10] 0"
    by (simp add: first_max_def less_Suc_eq nth_Cons')
  have v: "pulls after_round_1 = [0, 1]" "god_regret after_round_1 = [0, - 1]"
    "[0, - 1] = np_cumsum (god_regret after_round_1)"
    "np_cumsum (regret after_round_1) = [0, 3 / 10]"
    by (simp_all add: after_round_1_def np_cumsum_def)
  show ?thesis
    by (intro conjI) (fact example_well_shaped lf rng_ok_quiet example_returned r2 m fm v s)+
qed

text \<open>
  Against claim C3 as it is stated (explore whenever an arm has been pulled fewer than
  100 times): the belief state \<open>[(1, 99), (99, 1)]\<close> comes from the prior by 98 increments
  of each row, so each arm has been pulled 98 times, fewer than 100; the least-pulled arm,
  first among equals, is arm 0; and \<open>naive\<close> returns arm 1, the arm of the highest
  success rate.
\<close>

theorem naive_commits_after_98_pulls:
  "incremented_from_prior 2 [(1, 99), (99, 1)] \<and>
   row_total [(1, 99), (99, 1)] 0 - 2 = 98 \<and> row_total [(1, 99), (99, 1)] 1 - 2 = 98 \<and>
   least_pulled [(1, 99), (99, 1)] 0 \<and> \<not> least_pulled [(1, 99), (99, 1)] 1 \<and>
   naive [(1, 99), (99, 1)] quiet = Some (Inr (1, quiet)) \<and> best_rate [(1, 99), (99, 1)] 1"
proof -
  have t: "row_total [(1, 99), (99, 1)] 0 - 2 = 98" "row_total [(1, 99), (99, 1)] 1 - 2 = 98"
    by (simp_all add: row_total_def)
  have l0: "least_pulled [(1, 99), (99, 1)] 0"
    by (simp add: least_pulled_def row_total_def less_Suc_eq nth_Cons')
  have l1: "\<not> least_pulled [(1, 99), (99, 1)] 1"
    by (simp add: least_pulled_def row_total_def)
  have n: "naive [(1, 99), (99, 1)] quiet = Some (Inr (1, quiet))"
    by (simp add: naive_def naive_choice_def sum_axis1_def column0_def np_divide_def np_argmax_def)
  have b: "best_rate [(1, 99), (99, 1)] 1"
    by (simp add: best_rate_def success_rate_def row_total_def less_Suc_eq nth_Cons')
  show ?thesis
    by (intro conjI) (fact after_98_pulls_each t l0 l1 n b)+
qed

end
